theory Spec2Isabelle
  imports Complex_Main
begin

section \<open>Message protocol (types.ts)\<close>

text \<open>
  \<^verbatim>\<open>participants = { PARENT: 'parent', CHILD: 'child' } as const\<close>: a participant is
  one of two string literals at run time, and a message read from the channel carries
  whatever string its sender wrote, so \<open>Participant\<close> is \<open>string\<close>.
\<close>

type_synonym Participant = string

definition participants_PARENT :: Participant where
  "participants_PARENT = ''parent''"

definition participants_CHILD :: Participant where
  "participants_CHILD = ''child''"

text \<open>
  \<open>payload: unknown[][]\<close>: the values carried are opaque to the program, so their type
  is the parameter \<open>'v\<close> (a JavaScript number for the resize command).
\<close>

record 'v Command =
  id :: string
  sender :: Participant
  receiver :: Participant
  name :: string
  payload :: "'v list list"

record 'p CommandResponse =
  id :: string
  correspondingCommandId :: string
  sender :: Participant
  receiver :: Participant
  payload :: 'p

datatype Error = Error (message: string)

text \<open>
  A hook \<open>(error: Error) => void\<close> is supplied by the integrator. All the program can see
  of a call is whether it returns or throws, so a hook is a function from the error it
  is given to its completion; the call itself is recorded in the trace of the world.
\<close>

datatype completion = Returns | Throws Error

type_synonym hook = "Error \<Rightarrow> completion"

record IFrameResizingOptions =
  onError :: "hook option"
  captureError :: "hook option"

section \<open>The browser the script runs in\<close>

datatype Element = Element nat

record 'v DOMRectReadOnly =
  height :: 'v
  width :: 'v

record 'v ResizeObserverSize =
  blockSize :: 'v
  inlineSize :: 'v

record 'v ResizeObserverEntry =
  target :: Element
  contentRect :: "'v DOMRectReadOnly"
  borderBoxSize :: "'v ResizeObserverSize list"
  contentBoxSize :: "'v ResizeObserverSize list"

text \<open>
  Closures are represented by the variables they capture. One call of
  \<open>sendResizeCommand\<close> runs the promise executor once; its scope holds \<open>command\<close>,
  \<open>timeout\<close> (the timer handle) and the \<open>resolve\<close>/\<open>reject\<close> pair of the promise under
  construction (\<open>settle\<close>, the index of that promise). Both the function \<open>listener\<close> and
  the arrow function given to \<open>setTimeout\<close> close over this scope, and a scope identifies
  its \<open>listener\<close> function object.
\<close>

record 'v executor_scope =
  command :: "'v Command"
  timeout :: nat
  settle :: nat

record 'v timer =
  handle :: nat
  due :: nat
  callback :: "'v executor_scope"

datatype promise_state = Pending | Fulfilled | Rejected Error

text \<open>
  The only reaction ever attached to a promise is the arrow function given to
  \<open>.catch\<close> in the observer callback; it closes over \<open>onError\<close> and \<open>captureError\<close>.
\<close>

record promise =
  state :: promise_state
  catch_handlers :: "IFrameResizingOptions list"

text \<open>
  A \<open>ResizeObserver\<close> holds its callback (the arrow function of \<open>initIFrameResizing\<close>,
  closing over \<open>onError\<close> and \<open>captureError\<close>) and the elements it observes.
\<close>

record ResizeObserver =
  observer_callback_scope :: IFrameResizingOptions
  observed :: "Element list"

text \<open>
  The functions returned as cleanup. \<open>initIFrameResizing\<close> returns \<open>() => {}\<close> or
  \<open>() => { observer.disconnect(); }\<close>; \<open>autoInitIFrameResizing\<close> returns one of these or
  \<open>() => cleanup()\<close>, which reads the variable \<open>cleanup\<close> of its scope when called.
\<close>

datatype init_cleanup = Noop | Disconnect nat

datatype cleanup_fn = Direct init_cleanup | LateBound nat

text \<open>The \<open>DOMContentLoaded\<close> listener closes over \<open>options\<close> and the variable \<open>cleanup\<close>.\<close>

record ready_listener =
  options :: IFrameResizingOptions
  cleanup_var :: nat

datatype entry_point = InitIFrameResizing | AutoInitIFrameResizing

record IFrameResizing_api =
  init :: entry_point
  autoInit :: entry_point

text \<open>Calls that leave the script and have no other state: what a test would spy on.\<close>

datatype 'v effect =
    ConsoleWarn string
  | PostMessage "'v Command" string
  | AddEventListener "'v executor_scope"
  | RemoveEventListener "'v executor_scope"
  | SetTimeout nat nat
  | ClearTimeout nat
  | CallResolve nat
  | CallReject nat Error
  | CallOnError Error
  | CallCaptureError Error
  | UnhandledRejection Error

record 'v world =
  window_defined :: bool
  window_IFrameResizing :: "IFrameResizing_api option"
  readyState :: string
  body :: "Element option"
  ready_listeners :: "ready_listener list"
  cleanup_vars :: "nat \<Rightarrow> init_cleanup"
  var_count :: nat
  observers :: "ResizeObserver list"
  message_listeners :: "'v executor_scope list"
  timers :: "'v timer list"
  next_timer :: nat
  now :: nat
  promises :: "promise list"
  uuid_source :: "nat \<Rightarrow> string"
  uuid_used :: nat
  trace :: "'v effect list"

subsection \<open>Collaborators\<close>

definition emit :: "'v effect \<Rightarrow> 'v world \<Rightarrow> 'v world" where
  "emit e w = w\<lparr>trace := trace w @ [e]\<rparr>"

definition console_warn :: "string \<Rightarrow> 'v world \<Rightarrow> 'v world" where
  "console_warn s w = emit (ConsoleWarn s) w"

text \<open>\<open>uuidv4()\<close>: the generator hands out the next identifier of its sequence.\<close>

definition uuidv4 :: "'v world \<Rightarrow> string \<times> 'v world" where
  "uuidv4 w = (uuid_source w (uuid_used w), w\<lparr>uuid_used := Suc (uuid_used w)\<rparr>)"

text \<open>
  \<open>setTimeout(callback, delay)\<close> returns the handle \<open>next_timer w\<close>; the callback's scope
  already names that handle in \<open>timeout\<close>.
\<close>

definition setTimeout :: "'v executor_scope \<Rightarrow> nat \<Rightarrow> 'v world \<Rightarrow> 'v world" where
  "setTimeout s delay w =
     emit (SetTimeout (next_timer w) delay)
       (w\<lparr>timers := timers w @ [\<lparr>handle = next_timer w, due = now w + delay, callback = s\<rparr>],
          next_timer := Suc (next_timer w)\<rparr>)"

definition clearTimeout :: "nat \<Rightarrow> 'v world \<Rightarrow> 'v world" where
  "clearTimeout h w = emit (ClearTimeout h) (w\<lparr>timers := filter (\<lambda>t. handle t \<noteq> h) (timers w)\<rparr>)"

text \<open>
  \<open>window.addEventListener('message', listener, false)\<close> and its removal: a function
  object is registered at most once, and removal is by identity.
\<close>

definition addEventListener :: "'v executor_scope \<Rightarrow> 'v world \<Rightarrow> 'v world" where
  "addEventListener s w =
     emit (AddEventListener s)
       (if s \<in> set (message_listeners w) then w
        else w\<lparr>message_listeners := message_listeners w @ [s]\<rparr>)"

definition removeEventListener :: "'v executor_scope \<Rightarrow> 'v world \<Rightarrow> 'v world" where
  "removeEventListener s w =
     emit (RemoveEventListener s) (w\<lparr>message_listeners := removeAll s (message_listeners w)\<rparr>)"

definition postMessage :: "'v Command \<Rightarrow> string \<Rightarrow> 'v world \<Rightarrow> 'v world" where
  "postMessage c targetOrigin w = emit (PostMessage c targetOrigin) w"

definition observe :: "nat \<Rightarrow> Element \<Rightarrow> 'v world \<Rightarrow> 'v world" where
  "observe i e w =
     (if i < length (observers w)
      then w\<lparr>observers := (observers w)[i := (observers w ! i)\<lparr>observed := observed (observers w ! i) @ [e]\<rparr>]\<rparr>
      else w)"

definition disconnect :: "nat \<Rightarrow> 'v world \<Rightarrow> 'v world" where
  "disconnect i w =
     (if i < length (observers w)
      then w\<lparr>observers := (observers w)[i := (observers w ! i)\<lparr>observed := []\<rparr>]\<rparr>
      else w)"

section \<open>Size observer bridge: the failure handler\<close>

text \<open>
  The arrow function given to \<open>.catch\<close>: \<open>console.warn(error.message)\<close>, then
  \<open>onError(error)\<close> if present, then \<open>captureError(error)\<close> if present. Nothing in it
  catches, so a hook that throws ends the handler there.
\<close>

definition catch_handler :: "IFrameResizingOptions \<Rightarrow> Error \<Rightarrow> 'v world \<Rightarrow> completion \<times> 'v world" where
  "catch_handler opts error w =
     (let w1 = console_warn (message error) w;
          (r, w2) = (case onError opts of
                       None \<Rightarrow> (Returns, w1)
                     | Some f \<Rightarrow> (f error, emit (CallOnError error) w1))
      in case r of
           Throws x \<Rightarrow> (Throws x, w2)
         | Returns \<Rightarrow>
             (case captureError opts of
                None \<Rightarrow> (Returns, w2)
              | Some g \<Rightarrow> (g error, emit (CallCaptureError error) w2)))"

text \<open>A reaction that throws rejects the promise \<open>.catch\<close> returned, which nobody handles.\<close>

definition run_catch :: "IFrameResizingOptions \<Rightarrow> Error \<Rightarrow> 'v world \<Rightarrow> 'v world" where
  "run_catch opts error w =
     (case catch_handler opts error w of
        (Returns, w') \<Rightarrow> w'
      | (Throws x, w') \<Rightarrow> emit (UnhandledRejection x) w')"

subsection \<open>Promises\<close>

text \<open>\<open>resolve\<close> and \<open>reject\<close> settle a promise once; later calls change nothing.\<close>

definition resolve :: "nat \<Rightarrow> 'v world \<Rightarrow> 'v world" where
  "resolve p w =
     (let w1 = emit (CallResolve p) w in
      if p < length (promises w1) \<and> state (promises w1 ! p) = Pending
      then w1\<lparr>promises := (promises w1)[p := (promises w1 ! p)\<lparr>state := Fulfilled\<rparr>]\<rparr>
      else w1)"

definition reject :: "nat \<Rightarrow> Error \<Rightarrow> 'v world \<Rightarrow> 'v world" where
  "reject p e w =
     (let w1 = emit (CallReject p e) w in
      if p < length (promises w1) \<and> state (promises w1 ! p) = Pending
      then fold (\<lambda>h. run_catch h e) (catch_handlers (promises w1 ! p))
             (w1\<lparr>promises := (promises w1)[p := (promises w1 ! p)\<lparr>state := Rejected e\<rparr>]\<rparr>)
      else w1)"

definition promise_catch :: "nat \<Rightarrow> IFrameResizingOptions \<Rightarrow> 'v world \<Rightarrow> 'v world" where
  "promise_catch p h w =
     (if p < length (promises w)
      then (case state (promises w ! p) of
              Pending \<Rightarrow>
                w\<lparr>promises := (promises w)[p := (promises w ! p)\<lparr>catch_handlers := catch_handlers (promises w ! p) @ [h]\<rparr>]\<rparr>
            | Fulfilled \<Rightarrow> w
            | Rejected e \<Rightarrow> run_catch h e w)
      else w)"

section \<open>Resize command dispatcher\<close>

text \<open>
  The function \<open>listener\<close> of \<open>sendResizeCommand\<close>, called with \<open>event.data\<close>. Its
  parameter is declared \<open>MessageEvent<CommandResponse>\<close>: the data of a message is a
  \<open>CommandResponse\<close>, whose \<open>receiver\<close> and \<open>correspondingCommandId\<close> may hold any
  strings.
\<close>

definition listener :: "'v executor_scope \<Rightarrow> 'p CommandResponse \<Rightarrow> 'v world \<Rightarrow> 'v world" where
  "listener s commandResponse w =
     (if Command.sender (command s) \<noteq> CommandResponse.receiver commandResponse \<or>
         Command.id (command s) \<noteq> correspondingCommandId commandResponse
      then w
      else resolve (settle s) (removeEventListener s (clearTimeout (timeout s) w)))"

text \<open>The arrow function given to \<open>setTimeout\<close>.\<close>

definition timeout_callback :: "'v executor_scope \<Rightarrow> 'v world \<Rightarrow> 'v world" where
  "timeout_callback s w =
     reject (settle s) (Error ''Timeout exceeded for command resize'') (removeEventListener s w)"

text \<open>
  \<open>sendResizeCommand(height)\<close>: \<open>new Promise\<close> creates the promise and runs the executor
  at once. The result is the promise (its index) and the world after the executor.
\<close>

definition sendResizeCommand :: "'v \<Rightarrow> 'v world \<Rightarrow> nat \<times> 'v world" where
  "sendResizeCommand h w =
     (let p = length (promises w);
          w1 = w\<lparr>promises := promises w @ [\<lparr>state = Pending, catch_handlers = []\<rparr>]\<rparr>;
          (i, w2) = uuidv4 w1;
          c = \<lparr>Command.id = i, Command.sender = participants_CHILD,
               Command.receiver = participants_PARENT, Command.name = ''resize'',
               Command.payload = [[h]]\<rparr>;
          s = \<lparr>command = c, timeout = next_timer w2, settle = p\<rparr>;
          w3 = setTimeout s 20000 w2;
          w4 = addEventListener s w3;
          w5 = postMessage c ''*'' w4
      in (p, w5))"

section \<open>Size observer bridge\<close>

definition isServerSide :: "'v world \<Rightarrow> bool" where
  "isServerSide w = (\<not> window_defined w)"

text \<open>
  The callback given to \<open>new ResizeObserver\<close>: \<open>entries[0]\<close> is \<open>undefined\<close> exactly for
  the empty batch; otherwise the content rectangle's height is sent and the failure
  handler attached to the promise.
\<close>

definition observer_callback :: "IFrameResizingOptions \<Rightarrow> 'v ResizeObserverEntry list \<Rightarrow> 'v world \<Rightarrow> 'v world" where
  "observer_callback opts entries w =
     (case entries of
        [] \<Rightarrow> w
      | entry # _ \<Rightarrow>
          (let (p, w1) = sendResizeCommand (height (contentRect entry)) w
           in promise_catch p opts w1))"

section \<open>Lifecycle controller\<close>

definition initIFrameResizing :: "IFrameResizingOptions \<Rightarrow> 'v world \<Rightarrow> init_cleanup \<times> 'v world" where
  "initIFrameResizing opts w =
     (if isServerSide w
      then (Noop, console_warn ''initIFrameResizing: Cannot initialize on server side'' w)
      else
        (let i = length (observers w);
             w1 = w\<lparr>observers := observers w @ [\<lparr>observer_callback_scope = opts, observed = []\<rparr>]\<rparr>;
             w2 = (case body w1 of
                     Some b \<Rightarrow> observe i b w1
                   | None \<Rightarrow> console_warn ''initIFrameResizing: Document body not found'' w1)
         in (Disconnect i, w2)))"

text \<open>
  \<open>autoInitIFrameResizing\<close>: in the loading branch \<open>let cleanup = () => {}\<close> allocates
  the variable, the listener is added to the document, and \<open>() => cleanup()\<close> is returned.
\<close>

definition autoInitIFrameResizing :: "IFrameResizingOptions \<Rightarrow> 'v world \<Rightarrow> cleanup_fn \<times> 'v world" where
  "autoInitIFrameResizing opts w =
     (if isServerSide w then (Direct Noop, w)
      else if readyState w = ''loading''
      then
        (let c = var_count w;
             w1 = w\<lparr>cleanup_vars := (cleanup_vars w)(c := Noop), var_count := Suc c\<rparr>;
             w2 = w1\<lparr>ready_listeners := ready_listeners w1 @ [\<lparr>options = opts, cleanup_var = c\<rparr>]\<rparr>
         in (LateBound c, w2))
      else (let (f, w1) = initIFrameResizing opts w in (Direct f, w1)))"

text \<open>The listener for \<open>DOMContentLoaded\<close>: \<open>cleanup = initIFrameResizing(options)\<close>.\<close>

definition ready_callback :: "ready_listener \<Rightarrow> 'v world \<Rightarrow> 'v world" where
  "ready_callback l w =
     (let (f, w1) = initIFrameResizing (options l) w
      in w1\<lparr>cleanup_vars := (cleanup_vars w1)(cleanup_var l := f)\<rparr>)"

fun call_init_cleanup :: "init_cleanup \<Rightarrow> 'v world \<Rightarrow> 'v world" where
  "call_init_cleanup Noop w = w"
| "call_init_cleanup (Disconnect i) w = disconnect i w"

fun call_cleanup :: "cleanup_fn \<Rightarrow> 'v world \<Rightarrow> 'v world" where
  "call_cleanup (Direct f) w = call_init_cleanup f w"
| "call_cleanup (LateBound c) w = call_init_cleanup (cleanup_vars w c) w"

text \<open>The statement at the end of the module, run when the module is loaded.\<close>

definition module_load :: "'v world \<Rightarrow> 'v world" where
  "module_load w =
     (if window_defined w
      then w\<lparr>window_IFrameResizing := Some \<lparr>init = InitIFrameResizing, autoInit = AutoInitIFrameResizing\<rparr>\<rparr>
      else w)"

fun call_entry_point :: "entry_point \<Rightarrow> IFrameResizingOptions \<Rightarrow> 'v world \<Rightarrow> cleanup_fn \<times> 'v world" where
  "call_entry_point InitIFrameResizing opts w =
     (let (f, w1) = initIFrameResizing opts w in (Direct f, w1))"
| "call_entry_point AutoInitIFrameResizing opts w = autoInitIFrameResizing opts w"

section \<open>What the browser does to the script\<close>

text \<open>
  A \<open>message\<close> event on the window: every listener registered when the event is
  dispatched is called with it, in registration order, unless it was removed meanwhile.
\<close>

definition message_event :: "'p CommandResponse \<Rightarrow> 'v world \<Rightarrow> 'v world" where
  "message_event r w =
     fold (\<lambda>s w'. if s \<in> set (message_listeners w') then listener s r w' else w')
       (message_listeners w) w"

text \<open>
  Time passing: the timers that have come due run in order of due time (creation order
  among equals); a timer that runs is no longer pending, and one cleared meanwhile does
  not run.
\<close>

definition fire :: "'v timer \<Rightarrow> 'v world \<Rightarrow> 'v world" where
  "fire t w =
     (if t \<in> set (timers w)
      then timeout_callback (callback t) (w\<lparr>timers := removeAll t (timers w)\<rparr>)
      else w)"

definition time_passes :: "nat \<Rightarrow> 'v world \<Rightarrow> 'v world" where
  "time_passes dt w =
     (let w1 = w\<lparr>now := now w + dt\<rparr>
      in fold fire (sort_key due (filter (\<lambda>t. due t \<le> now w1) (timers w1))) w1)"

text \<open>
  A resize notification: the browser calls the callback of an observer that observes
  something; a disconnected observer receives nothing.
\<close>

definition resize_notification :: "nat \<Rightarrow> 'v ResizeObserverEntry list \<Rightarrow> 'v world \<Rightarrow> 'v world" where
  "resize_notification i entries w =
     (if i < length (observers w) \<and> observed (observers w ! i) \<noteq> []
      then observer_callback (observer_callback_scope (observers w ! i)) entries w
      else w)"

text \<open>
  A \<open>DOMContentLoaded\<close> event on the document: a document that was loading is now
  interactive, and every listener registered on the document is called. The script adds
  its listener without \<open>once\<close> and never removes it, so it stays registered and is
  called by every dispatch of the event, the browser's own or a later one.
\<close>

definition DOMContentLoaded :: "'v world \<Rightarrow> 'v world" where
  "DOMContentLoaded w =
     fold ready_callback (ready_listeners w)
       (w\<lparr>readyState := (if readyState w = ''loading'' then ''interactive'' else readyState w)\<rparr>)"

datatype ('v, 'p) event =
    Message "'p CommandResponse"
  | TimePasses nat
  | ResizeNotification nat "'v ResizeObserverEntry list"
  | DocumentReady
  | CallInit IFrameResizingOptions
  | CallAutoInit IFrameResizingOptions
  | CallCleanup cleanup_fn

fun step :: "('v, 'p) event \<Rightarrow> 'v world \<Rightarrow> 'v world" where
  "step (Message r) w = message_event r w"
| "step (TimePasses dt) w = time_passes dt w"
| "step (ResizeNotification i entries) w = resize_notification i entries w"
| "step DocumentReady w = DOMContentLoaded w"
| "step (CallInit opts) w = snd (initIFrameResizing opts w)"
| "step (CallAutoInit opts) w = snd (autoInitIFrameResizing opts w)"
| "step (CallCleanup f) w = call_cleanup f w"

definition run :: "('v, 'p) event list \<Rightarrow> 'v world \<Rightarrow> 'v world" where
  "run evs w = fold step evs w"

text \<open>A page before the script has done anything.\<close>

definition fresh_page :: "bool \<Rightarrow> string \<Rightarrow> Element option \<Rightarrow> (nat \<Rightarrow> string) \<Rightarrow> 'v world" where
  "fresh_page win rs b ids =
     \<lparr>window_defined = win, window_IFrameResizing = None, readyState = rs, body = b,
      ready_listeners = [], cleanup_vars = (\<lambda>_. Noop), var_count = 0, observers = [],
      message_listeners = [], timers = [], next_timer = 0, now = 0, promises = [],
      uuid_source = ids, uuid_used = 0, trace = []\<rparr>"

section \<open>Notions used in the statements\<close>

text \<open>The commands sent to the parent, with their target origin, in the order sent.\<close>

fun posted_of :: "'v effect list \<Rightarrow> ('v Command \<times> string) list" where
  "posted_of [] = []"
| "posted_of (PostMessage c t # es) = (c, t) # posted_of es"
| "posted_of (_ # es) = posted_of es"

definition posted :: "'v world \<Rightarrow> ('v Command \<times> string) list" where
  "posted w = posted_of (trace w)"

definition resize_command :: "string \<Rightarrow> 'v \<Rightarrow> 'v Command" where
  "resize_command i h =
     \<lparr>Command.id = i, Command.sender = ''child'', Command.receiver = ''parent'',
      Command.name = ''resize'', Command.payload = [[h]]\<rparr>"

text \<open>The observer \<open>initIFrameResizing\<close> leaves behind: attached to the body if there is one.\<close>

definition attached :: "IFrameResizingOptions \<Rightarrow> Element option \<Rightarrow> ResizeObserver" where
  "attached opts b =
     \<lparr>observer_callback_scope = opts, observed = (case b of Some e \<Rightarrow> [e] | None \<Rightarrow> [])\<rparr>"

definition timeout_error :: Error where
  "timeout_error = Error ''Timeout exceeded for command resize''"

text \<open>The test of \<open>listener\<close>, read positively.\<close>

definition matches :: "'v executor_scope \<Rightarrow> 'p CommandResponse \<Rightarrow> bool" where
  "matches s r \<longleftrightarrow>
     CommandResponse.receiver r = Command.sender (command s) \<and>
     correspondingCommandId r = Command.id (command s)"

text \<open>How often \<open>resolve\<close> or \<open>reject\<close> of promise \<open>p\<close> has been called.\<close>

fun is_settle_call :: "nat \<Rightarrow> 'v effect \<Rightarrow> bool" where
  "is_settle_call p (CallResolve q) = (q = p)"
| "is_settle_call p (CallReject q e) = (q = p)"
| "is_settle_call p _ = False"

definition settle_calls :: "nat \<Rightarrow> 'v world \<Rightarrow> nat" where
  "settle_calls p w = length (filter (is_settle_call p) (trace w))"

text \<open>What one run of the failure handler adds to the trace.\<close>

definition handler_effects :: "IFrameResizingOptions \<Rightarrow> Error \<Rightarrow> 'v effect list" where
  "handler_effects opts e =
     [ConsoleWarn (message e)]
     @ (case onError opts of None \<Rightarrow> [] | Some f \<Rightarrow> [CallOnError e])
     @ (case (case onError opts of None \<Rightarrow> Returns | Some f \<Rightarrow> f e) of
          Throws x \<Rightarrow> [UnhandledRejection x]
        | Returns \<Rightarrow>
            (case captureError opts of
               None \<Rightarrow> []
             | Some g \<Rightarrow>
                 CallCaptureError e # (case g e of Returns \<Rightarrow> [] | Throws y \<Rightarrow> [UnhandledRejection y])))"

subsection \<open>The in-flight request state\<close>

text \<open>
  The scope of the executor that \<open>sendResizeCommand h\<close> runs in world \<open>w\<close>: the command
  it builds, the handle \<open>setTimeout\<close> returns, and the promise it settles.
\<close>

definition dispatch_scope :: "'v \<Rightarrow> 'v world \<Rightarrow> 'v executor_scope" where
  "dispatch_scope h w =
     \<lparr>command = \<lparr>Command.id = fst (uuidv4 w), Command.sender = ''child'',
                  Command.receiver = ''parent'', Command.name = ''resize'',
                  Command.payload = [[h]]\<rparr>,
      timeout = next_timer w, settle = length (promises w)\<rparr>"

text \<open>
  The invariant of the dispatcher. Pending timers and registered listeners correspond
  one to one, in the same order, each timer carrying the handle its listener would
  clear; a promise is pending exactly while its listener is registered; a rejection is
  always the timeout error; and \<open>resolve\<close>/\<open>reject\<close> of a promise have been called once if it
  is settled and never if it is not (or does not exist yet).
\<close>

definition paired :: "'v world \<Rightarrow> bool" where
  "paired w \<longleftrightarrow>
     map callback (timers w) = message_listeners w
   \<and> distinct (map handle (timers w))
   \<and> distinct (map settle (message_listeners w))
   \<and> (\<forall>t \<in> set (timers w). handle t = timeout (callback t) \<and> handle t < next_timer w)
   \<and> (\<forall>s \<in> set (message_listeners w). settle s < length (promises w))
   \<and> (\<forall>p < length (promises w).
        (state (promises w ! p) = Pending) = (p \<in> settle ` set (message_listeners w)))
   \<and> (\<forall>p < length (promises w). \<forall>e. state (promises w ! p) = Rejected e \<longrightarrow> e = timeout_error)
   \<and> (\<forall>p. settle_calls p w =
          (if p < length (promises w) \<and> state (promises w ! p) \<noteq> Pending then 1 else 0))"

text \<open>Between events, moreover, no pending timer is overdue.\<close>

definition well_formed :: "'v world \<Rightarrow> bool" where
  "well_formed w \<longleftrightarrow> paired w \<and> (\<forall>t \<in> set (timers w). now w < due t)"

text \<open>
  What is known of one dispatch \<open>s\<close> with deadline \<open>D\<close> for as long as the page lives: its
  promise exists, no other listener settles it, and its timer is due at \<open>D\<close>.
\<close>

definition tracked :: "'v executor_scope \<Rightarrow> nat \<Rightarrow> 'v world \<Rightarrow> bool" where
  "tracked s D w \<longleftrightarrow>
     settle s < length (promises w)
   \<and> (\<forall>s' \<in> set (message_listeners w). settle s' = settle s \<longrightarrow> s' = s)
   \<and> (\<forall>t \<in> set (timers w). callback t = s \<longrightarrow> due t = D)"

text \<open>
  In a paired world both ways a dispatch ends have one shape: timer and listener of \<open>s\<close>
  go, the promise takes its final state \<open>x\<close>, and the trace grows by \<open>tr\<close>.
\<close>

definition retire :: "'v executor_scope \<Rightarrow> promise_state \<Rightarrow> 'v effect list \<Rightarrow> 'v world \<Rightarrow> 'v world" where
  "retire s x tr w =
     w\<lparr>timers := filter (\<lambda>t. callback t \<noteq> s) (timers w),
       message_listeners := removeAll s (message_listeners w),
       promises := (promises w)[settle s := (promises w ! settle s)\<lparr>state := x\<rparr>],
       trace := trace w @ tr\<rparr>"

definition acknowledged :: "'v executor_scope \<Rightarrow> 'v effect list" where
  "acknowledged s = [ClearTimeout (timeout s), RemoveEventListener s, CallResolve (settle s)]"

definition timed_out :: "'v executor_scope \<Rightarrow> 'v world \<Rightarrow> 'v effect list" where
  "timed_out s w =
     RemoveEventListener s # CallReject (settle s) timeout_error
       # concat (map (\<lambda>h. handler_effects h timeout_error) (catch_handlers (promises w ! settle s)))"

definition removed_then_rejected :: "'v executor_scope \<Rightarrow> 'v effect list \<Rightarrow> bool" where
  "removed_then_rejected s tr \<longleftrightarrow>
     (\<exists>pre post. tr = pre @ [RemoveEventListener s, CallReject (settle s) timeout_error] @ post)"

text \<open>Two worlds that differ in nothing the dispatcher reads or counts.\<close>

definition same_dispatch :: "'v world \<Rightarrow> 'v world \<Rightarrow> bool" where
  "same_dispatch w w' \<longleftrightarrow>
     timers w' = timers w \<and> message_listeners w' = message_listeners w
   \<and> next_timer w' = next_timer w \<and> now w' = now w \<and> promises w' = promises w
   \<and> (\<forall>p. settle_calls p w' = settle_calls p w)"

text \<open>The world \<open>w'\<close> draws its identifiers from the generator of \<open>w\<close>, further on.\<close>

definition later_ids :: "'v world \<Rightarrow> 'v world \<Rightarrow> bool" where
  "later_ids w w' \<longleftrightarrow> uuid_source w' = uuid_source w \<and> uuid_used w \<le> uuid_used w'"

text \<open>The time a sequence of events takes, and whether it holds no response to \<open>s\<close>.\<close>

fun duration :: "('v, 'p) event \<Rightarrow> nat" where
  "duration (TimePasses dt) = dt"
| "duration _ = 0"

fun elapsed :: "('v, 'p) event list \<Rightarrow> nat" where
  "elapsed [] = 0"
| "elapsed (ev # evs) = duration ev + elapsed evs"

fun unanswered :: "'v executor_scope \<Rightarrow> ('v, 'p) event list \<Rightarrow> bool" where
  "unanswered s [] = True"
| "unanswered s (Message r # evs) = (\<not> matches s r \<and> unanswered s evs)"
| "unanswered s (_ # evs) = unanswered s evs"

subsection \<open>Example inputs\<close>

definition throwing_hook :: hook where
  "throwing_hook e = Throws e"

definition returning_hook :: hook where
  "returning_hook e = Returns"

definition example_ids :: "nat \<Rightarrow> string" where
  "example_ids n = ''id-'' @ replicate n (CHR ''x'')"

definition example_entry :: "'v \<Rightarrow> 'v \<Rightarrow> 'v ResizeObserverEntry" where
  "example_entry h b =
     \<lparr>target = Element 0, contentRect = \<lparr>height = h, width = h\<rparr>,
      borderBoxSize = [\<lparr>blockSize = b, inlineSize = b\<rparr>], contentBoxSize = []\<rparr>"

definition example_page :: "real world" where
  "example_page = fresh_page True ''complete'' (Some (Element 0)) example_ids"

definition loading_page :: "real world" where
  "loading_page = fresh_page True ''loading'' (Some (Element 0)) example_ids"

definition server_side :: "real world" where
  "server_side = fresh_page False ''complete'' None example_ids"

definition bodyless_page :: "real world" where
  "bodyless_page = fresh_page True ''complete'' None example_ids"

definition no_hooks :: IFrameResizingOptions where
  "no_hooks = \<lparr>onError = None, captureError = None\<rparr>"

definition example_ack :: "string \<Rightarrow> string \<Rightarrow> unit CommandResponse" where
  "example_ack i rcv =
     \<lparr>CommandResponse.id = ''response-id'', correspondingCommandId = i,
      CommandResponse.sender = ''parent'', CommandResponse.receiver = rcv,
      CommandResponse.payload = ()\<rparr>"

definition observed_page :: "real world" where
  "observed_page = snd (initIFrameResizing no_hooks example_page)"

section \<open>Properties\<close>

lemmas eval_defs = run_def initIFrameResizing_def isServerSide_def observe_def disconnect_def
  console_warn_def emit_def resize_notification_def observer_callback_def sendResizeCommand_def
  uuidv4_def setTimeout_def clearTimeout_def addEventListener_def removeEventListener_def
  postMessage_def promise_catch_def time_passes_def fire_def timeout_callback_def reject_def
  resolve_def run_catch_def catch_handler_def message_event_def listener_def
  autoInitIFrameResizing_def DOMContentLoaded_def ready_callback_def fresh_page_def
  participants_CHILD_def participants_PARENT_def Let_def
  example_page_def example_entry_def example_ids_def no_hooks_def

subsection \<open>The dispatcher sends one resize command\<close>

lemma posted_of_append: "posted_of (xs @ ys) = posted_of xs @ posted_of ys"
  by (induction xs rule: posted_of.induct) simp_all

lemma sendResizeCommand_trace:
  "trace (snd (sendResizeCommand h w)) =
     trace w @ [SetTimeout (next_timer w) 20000,
                AddEventListener \<lparr>command = resize_command (uuid_source w (uuid_used w)) h,
                                  timeout = next_timer w, settle = length (promises w)\<rparr>,
                PostMessage (resize_command (uuid_source w (uuid_used w)) h) ''*'']"
  by (simp add: sendResizeCommand_def Let_def uuidv4_def setTimeout_def addEventListener_def
      postMessage_def emit_def resize_command_def participants_CHILD_def participants_PARENT_def)

lemma sendResizeCommand_fst: "fst (sendResizeCommand h w) = length (promises w)"
  by (simp add: sendResizeCommand_def Let_def uuidv4_def)

lemma sendResizeCommand_promises:
  "promises (snd (sendResizeCommand h w)) = promises w @ [\<lparr>state = Pending, catch_handlers = []\<rparr>]"
  by (simp add: sendResizeCommand_def Let_def uuidv4_def setTimeout_def addEventListener_def
      postMessage_def emit_def)

text \<open>
  C2. For every height \<open>h\<close> (the type of heights is arbitrary, so zero, large and
  non-integer numbers are all covered), \<open>sendResizeCommand h\<close> sends exactly one more
  message to the parent: the command with \<open>sender\<close> \<open>child\<close>, \<open>receiver\<close> \<open>parent\<close>, \<open>name\<close>
  \<open>resize\<close>, \<open>payload\<close> \<open>[[h]]\<close> and as \<open>id\<close> the identifier \<open>uuidv4\<close> returns at that moment,
  with target origin \<open>*\<close>; the generator has been asked once.
\<close>

theorem sendResizeCommand_posts_resize_command:
  "posted (snd (sendResizeCommand h w)) =
     posted w @ [(\<lparr>Command.id = fst (uuidv4 w), Command.sender = ''child'',
                   Command.receiver = ''parent'', Command.name = ''resize'',
                   Command.payload = [[h]]\<rparr>, ''*'')]
   \<and> uuid_used (snd (sendResizeCommand h w)) = Suc (uuid_used w)"
  by (simp add: posted_def sendResizeCommand_trace posted_of_append resize_command_def uuidv4_def)
    (simp add: sendResizeCommand_def Let_def uuidv4_def setTimeout_def addEventListener_def
      postMessage_def emit_def)

theorem sendResizeCommand_posts_resize_command_witness:
  "posted (snd (sendResizeCommand (123.456 :: real) example_page)) =
     [(\<lparr>Command.id = ''id-'', Command.sender = ''child'', Command.receiver = ''parent'',
        Command.name = ''resize'', Command.payload = [[123.456]]\<rparr>, ''*'')]"
  using sendResizeCommand_posts_resize_command [of "123.456 :: real" example_page]
  by (simp add: posted_def uuidv4_def example_page_def fresh_page_def example_ids_def)

subsection \<open>The observer callback\<close>

lemma observer_callback_Cons:
  "observer_callback opts (entry # rest) w =
     (snd (sendResizeCommand (height (contentRect entry)) w))
       \<lparr>promises := promises w @ [\<lparr>state = Pending, catch_handlers = [opts]\<rparr>]\<rparr>"
  by (simp add: observer_callback_def split_beta promise_catch_def sendResizeCommand_fst
      sendResizeCommand_promises)

text \<open>
  C5. An empty batch leaves the world as it is: nothing is sent, nothing is thrown. A
  batch with a first entry makes exactly one dispatch (one more promise, one more message
  to the parent), whose payload is the height of the first entry's content rectangle;
  the border-box and content-box sizes of the entry and all later entries are ignored.
\<close>

theorem observer_callback_first_entry_only:
  "observer_callback opts [] w = w
   \<and> posted (observer_callback opts (entry # rest) w) =
       posted w @ [(\<lparr>Command.id = fst (uuidv4 w), Command.sender = ''child'',
                     Command.receiver = ''parent'', Command.name = ''resize'',
                     Command.payload = [[height (contentRect entry)]]\<rparr>, ''*'')]
   \<and> length (promises (observer_callback opts (entry # rest) w)) = Suc (length (promises w))
   \<and> observer_callback opts (entry\<lparr>borderBoxSize := bb, contentBoxSize := cb\<rparr> # rest') w =
       observer_callback opts (entry # rest) w"
proof -
  have "observer_callback opts [] w = w"
    by (simp add: observer_callback_def)
  moreover have "posted (observer_callback opts (entry # rest) w) =
       posted w @ [(\<lparr>Command.id = fst (uuidv4 w), Command.sender = ''child'',
                     Command.receiver = ''parent'', Command.name = ''resize'',
                     Command.payload = [[height (contentRect entry)]]\<rparr>, ''*'')]"
    by (simp add: observer_callback_Cons posted_def sendResizeCommand_trace posted_of_append
        resize_command_def uuidv4_def)
  moreover have "length (promises (observer_callback opts (entry # rest) w)) = Suc (length (promises w))"
    by (simp add: observer_callback_Cons)
  moreover have "observer_callback opts (entry\<lparr>borderBoxSize := bb, contentBoxSize := cb\<rparr> # rest') w =
       observer_callback opts (entry # rest) w"
    by (simp add: observer_callback_def)
  ultimately show ?thesis by simp
qed

theorem observer_callback_first_entry_only_witness:
  "observer_callback no_hooks [] example_page = example_page
   \<and> posted (observer_callback no_hooks [example_entry 500 520, example_entry 700 720] example_page) =
       [(\<lparr>Command.id = ''id-'', Command.sender = ''child'', Command.receiver = ''parent'',
          Command.name = ''resize'', Command.payload = [[500]]\<rparr>, ''*'')]"
  using observer_callback_first_entry_only
    [of no_hooks example_page "example_entry 500 520" "[example_entry 700 720]"]
  by (simp add: posted_def uuidv4_def example_page_def fresh_page_def example_ids_def
      example_entry_def)

subsection \<open>Module load\<close>

text \<open>
  C10. Loading the module where a global \<open>window\<close> exists changes the world in one place
  only: \<open>window.IFrameResizing\<close> becomes the object whose \<open>init\<close> and \<open>autoInit\<close> are the two
  exported functions themselves. Where no \<open>window\<close> exists, loading changes nothing.
\<close>

theorem module_load_exposes_entry_points:
  "(window_defined w \<longrightarrow>
      module_load w = w\<lparr>window_IFrameResizing :=
                         Some \<lparr>init = InitIFrameResizing, autoInit = AutoInitIFrameResizing\<rparr>\<rparr>
      \<and> (\<forall>api. window_IFrameResizing (module_load w) = Some api \<longrightarrow>
            call_entry_point (init api) opts w' =
              (Direct (fst (initIFrameResizing opts w')), snd (initIFrameResizing opts w'))
          \<and> call_entry_point (autoInit api) opts w' = autoInitIFrameResizing opts w'))
   \<and> (\<not> window_defined w \<longrightarrow> module_load w = w)"
  by (auto simp add: module_load_def split_beta)

theorem module_load_exposes_entry_points_witness:
  "window_defined example_page
   \<and> window_IFrameResizing (module_load example_page) =
       Some \<lparr>init = InitIFrameResizing, autoInit = AutoInitIFrameResizing\<rparr>
   \<and> \<not> window_defined server_side
   \<and> module_load server_side = server_side"
  using module_load_exposes_entry_points [of example_page no_hooks example_page]
    module_load_exposes_entry_points [of server_side no_hooks server_side]
  by (simp add: example_page_def server_side_def fresh_page_def)

subsection \<open>Immediate and deferred initialization\<close>

lemma initIFrameResizing_browser:
  "window_defined w \<Longrightarrow>
   initIFrameResizing opts w =
     (Disconnect (length (observers w)),
      (case body w of
         Some b \<Rightarrow> w\<lparr>observers := observers w @ [attached opts (body w)]\<rparr>
       | None \<Rightarrow> console_warn ''initIFrameResizing: Document body not found''
                   (w\<lparr>observers := observers w @ [attached opts (body w)]\<rparr>)))"
  by (simp add: initIFrameResizing_def isServerSide_def Let_def observe_def attached_def
      console_warn_def emit_def split: option.splits)

lemma initIFrameResizing_observers:
  "window_defined w \<Longrightarrow>
   observers (snd (initIFrameResizing opts w)) = observers w @ [attached opts (body w)]"
  by (simp add: initIFrameResizing_browser console_warn_def emit_def split: option.splits)

lemma initIFrameResizing_fst:
  "window_defined w \<Longrightarrow> fst (initIFrameResizing opts w) = Disconnect (length (observers w))"
  by (simp add: initIFrameResizing_browser)

lemma initIFrameResizing_document:
  "window_defined (snd (initIFrameResizing opts w)) = window_defined w
   \<and> body (snd (initIFrameResizing opts w)) = body w
   \<and> readyState (snd (initIFrameResizing opts w)) = readyState w
   \<and> ready_listeners (snd (initIFrameResizing opts w)) = ready_listeners w
   \<and> cleanup_vars (snd (initIFrameResizing opts w)) = cleanup_vars w"
  by (simp add: initIFrameResizing_def isServerSide_def Let_def observe_def
      console_warn_def emit_def split: option.splits)

lemma initIFrameResizing_observers_le:
  "length (observers w) \<le> length (observers (snd (initIFrameResizing opts w)))"
  by (simp add: initIFrameResizing_def isServerSide_def Let_def observe_def
      console_warn_def emit_def split: option.splits)

lemma ready_callback_document:
  "window_defined (ready_callback l w) = window_defined w
   \<and> body (ready_callback l w) = body w
   \<and> readyState (ready_callback l w) = readyState w
   \<and> ready_listeners (ready_callback l w) = ready_listeners w
   \<and> length (observers w) \<le> length (observers (ready_callback l w))"
  by (simp add: ready_callback_def split_beta initIFrameResizing_document
      initIFrameResizing_observers_le)

lemma fold_ready_callback_document:
  "window_defined (fold ready_callback ls w) = window_defined w
   \<and> body (fold ready_callback ls w) = body w
   \<and> readyState (fold ready_callback ls w) = readyState w
   \<and> ready_listeners (fold ready_callback ls w) = ready_listeners w
   \<and> length (observers w) \<le> length (observers (fold ready_callback ls w))"
proof (induction ls arbitrary: w)
  case Nil
  show ?case by simp
next
  case (Cons l ls)
  from Cons [of "ready_callback l w"] ready_callback_document [of l w] show ?case
    by simp
qed

lemma ready_callback_browser:
  "window_defined w \<Longrightarrow>
   observers (ready_callback l w) = observers w @ [attached (options l) (body w)]
   \<and> cleanup_vars (ready_callback l w) (cleanup_var l) = Disconnect (length (observers w))"
  by (simp add: ready_callback_def split_beta initIFrameResizing_observers
      initIFrameResizing_fst)

lemma autoInit_loading:
  "window_defined w \<Longrightarrow> readyState w = ''loading'' \<Longrightarrow>
   autoInitIFrameResizing opts w =
     (LateBound (var_count w),
      w\<lparr>cleanup_vars := (cleanup_vars w)(var_count w := Noop), var_count := Suc (var_count w),
        ready_listeners := ready_listeners w @ [\<lparr>options = opts, cleanup_var = var_count w\<rparr>]\<rparr>)"
  by (simp add: autoInitIFrameResizing_def isServerSide_def Let_def)


lemma DOMContentLoaded_eq:
  "DOMContentLoaded w =
     fold ready_callback (ready_listeners w)
       (w\<lparr>readyState := (if readyState w = ''loading'' then ''interactive'' else readyState w)\<rparr>)"
  by (simp add: DOMContentLoaded_def)


lemma DOMContentLoaded_last:
  assumes "window_defined w" and "ready_listeners w = ls @ [l]"
  shows "\<exists>obs. observers (DOMContentLoaded w) = obs @ [attached (options l) (body w)]
           \<and> cleanup_vars (DOMContentLoaded w) (cleanup_var l) = Disconnect (length obs)
           \<and> length (observers w) \<le> length obs"
proof -
  let ?w0 = "w\<lparr>readyState := (if readyState w = ''loading'' then ''interactive'' else readyState w)\<rparr>"
  let ?w2 = "fold ready_callback ls ?w0"
  have win: "window_defined ?w2" and b: "body ?w2 = body w"
    and len: "length (observers w) \<le> length (observers ?w2)"
    using assms(1) fold_ready_callback_document [of ls ?w0] by simp_all
  have "DOMContentLoaded w = ready_callback l ?w2"
    by (simp add: DOMContentLoaded_eq assms(2))
  with ready_callback_browser [OF win, of l] b len show ?thesis
    by simp
qed

lemma DOMContentLoaded_after_autoInit:
  assumes "window_defined w" and "readyState w = ''loading''"
  shows "DOMContentLoaded (snd (autoInitIFrameResizing opts w)) =
           ready_callback \<lparr>options = opts, cleanup_var = var_count w\<rparr>
             (fold ready_callback (ready_listeners w)
                ((snd (autoInitIFrameResizing opts w))\<lparr>readyState := ''interactive''\<rparr>))"
  using assms by (simp add: autoInit_loading DOMContentLoaded_eq)

lemma DOMContentLoaded_observer:
  assumes "window_defined w" and "readyState w = ''loading''"
  shows "\<exists>obs. observers (DOMContentLoaded (snd (autoInitIFrameResizing opts w))) =
                  obs @ [attached opts (body w)]
           \<and> cleanup_vars (DOMContentLoaded (snd (autoInitIFrameResizing opts w))) (var_count w) =
               Disconnect (length obs)"
proof -
  let ?w1 = "snd (autoInitIFrameResizing opts w)"
  have "window_defined ?w1"
    and "ready_listeners ?w1 = ready_listeners w @ [\<lparr>options = opts, cleanup_var = var_count w\<rparr>]"
    and "body ?w1 = body w"
    using assms by (simp_all add: autoInit_loading)
  from DOMContentLoaded_last [OF this(1,2)] this(3) show ?thesis
    by auto
qed





subsection \<open>Cleanup\<close>

lemma disconnect_idem: "disconnect i (disconnect i w) = disconnect i w"
  by (simp add: disconnect_def)

lemma call_init_cleanup_idem: "call_init_cleanup f (call_init_cleanup f w) = call_init_cleanup f w"
  by (cases f) (simp_all add: disconnect_idem)

lemma call_init_cleanup_vars: "cleanup_vars (call_init_cleanup f w) = cleanup_vars w"
  by (cases f) (simp_all add: disconnect_def)

lemma call_cleanup_idem: "call_cleanup f (call_cleanup f w) = call_cleanup f w"
  by (cases f) (simp_all add: call_init_cleanup_idem call_init_cleanup_vars)

lemma call_cleanup_funpow: "(call_cleanup f ^^ Suc n) w = call_cleanup f w"
  by (induction n) (simp_all add: call_cleanup_idem)

lemma call_init_cleanup_frame:
  "call_init_cleanup f w = w\<lparr>observers := observers (call_init_cleanup f w)\<rparr>"
  by (cases f) (simp_all add: disconnect_def)

lemma call_cleanup_frame:
  "call_cleanup f w = w\<lparr>observers := observers (call_cleanup f w)\<rparr>"
  by (cases f) (simp_all add: call_init_cleanup_frame [symmetric])

lemma call_cleanup_trace: "trace (call_cleanup f w) = trace w"
  by (subst call_cleanup_frame) simp

lemma cleanup_unattached:
  assumes "body w = None \<or> \<not> window_defined w"
  shows "call_init_cleanup (fst (initIFrameResizing opts w)) (snd (initIFrameResizing opts w)) =
           snd (initIFrameResizing opts w)"
proof (cases "window_defined w")
  case True
  with assms have "body w = None" by simp
  with True show ?thesis
    by (simp add: initIFrameResizing_browser disconnect_def console_warn_def emit_def
        attached_def)
next
  case False
  then show ?thesis by (simp add: initIFrameResizing_def isServerSide_def)
qed

text \<open>
  C9. Let \<open>f\<close> be any cleanup function either entry point can return, and \<open>w\<close> any world.
  Calling \<open>f\<close> again and again (\<open>n + 1\<close> times) leaves the world a single call leaves. A call
  changes nothing but the observers: the trace is the same, so no command is sent and
  nothing is logged or thrown. When \<open>initIFrameResizing\<close> attached nothing, because the
  document has no body or there is no window, calling its cleanup changes nothing at all.
\<close>

theorem call_cleanup_idempotent:
  "(call_cleanup f ^^ Suc n) w = call_cleanup f w
   \<and> call_cleanup f w = w\<lparr>observers := observers (call_cleanup f w)\<rparr>
   \<and> posted (call_cleanup f w) = posted w
   \<and> (body w = None \<or> \<not> window_defined w \<longrightarrow>
        call_init_cleanup (fst (initIFrameResizing opts w)) (snd (initIFrameResizing opts w)) =
          snd (initIFrameResizing opts w))"
  using call_cleanup_funpow [where f = f and n = n and w = w]
    call_cleanup_frame [where f = f and w = w] call_cleanup_trace [where f = f and w = w]
    cleanup_unattached [where w = w and opts = opts]
  by (simp only: posted_def) blast

theorem call_cleanup_idempotent_witness:
  "body bodyless_page = None
   \<and> call_init_cleanup (fst (initIFrameResizing no_hooks bodyless_page))
         (snd (initIFrameResizing no_hooks bodyless_page)) =
       snd (initIFrameResizing no_hooks bodyless_page)
   \<and> observers (call_cleanup (Direct (Disconnect 0))
         (call_cleanup (Direct (Disconnect 0)) (snd (initIFrameResizing no_hooks example_page)))) =
       [\<lparr>observer_callback_scope = no_hooks, observed = []\<rparr>]"
proof -
  have b: "body bodyless_page = None"
    by (simp add: bodyless_page_def fresh_page_def)
  have "(call_cleanup (Direct (Disconnect 0)) ^^ Suc (Suc 0)) (snd (initIFrameResizing no_hooks example_page)) =
          call_cleanup (Direct (Disconnect 0)) (snd (initIFrameResizing no_hooks example_page))"
    using call_cleanup_idempotent
      [where f = "Direct (Disconnect 0)" and n = "Suc 0"
         and w = "snd (initIFrameResizing no_hooks example_page)"]
    by blast
  then have "observers (call_cleanup (Direct (Disconnect 0))
         (call_cleanup (Direct (Disconnect 0)) (snd (initIFrameResizing no_hooks example_page)))) =
       observers (call_cleanup (Direct (Disconnect 0)) (snd (initIFrameResizing no_hooks example_page)))"
    by simp
  also have "\<dots> = [\<lparr>observer_callback_scope = no_hooks, observed = []\<rparr>]"
    by (simp add: eval_defs)
  finally show ?thesis
    using b call_cleanup_idempotent
      [where f = "Direct Noop" and n = 0 and w = bodyless_page and opts = no_hooks]
    by blast
qed

text \<open>
  C8. The function a deferred \<open>autoInitIFrameResizing\<close> returns reads the variable
  \<open>cleanup\<close> each time it is called: in any later world it does what the function then
  stored there does. Called before the ready event it changes nothing, and the event
  still initializes afterwards exactly as if it had not been called. Called after the
  event it disconnects the observer the deferred initialization created.
\<close>

theorem late_bound_cleanup:
  assumes "window_defined w" and "readyState w = ''loading''"
  shows "fst (autoInitIFrameResizing opts w) = LateBound (var_count w)
       \<and> (\<forall>w'. call_cleanup (fst (autoInitIFrameResizing opts w)) w' =
                  call_init_cleanup (cleanup_vars w' (var_count w)) w')
       \<and> call_cleanup (fst (autoInitIFrameResizing opts w)) (snd (autoInitIFrameResizing opts w)) =
           snd (autoInitIFrameResizing opts w)
       \<and> DOMContentLoaded
             (call_cleanup (fst (autoInitIFrameResizing opts w)) (snd (autoInitIFrameResizing opts w))) =
           DOMContentLoaded (snd (autoInitIFrameResizing opts w))
       \<and> (\<exists>obs. observers (DOMContentLoaded (snd (autoInitIFrameResizing opts w))) =
                    obs @ [\<lparr>observer_callback_scope = opts,
                             observed = (case body w of Some e \<Rightarrow> [e] | None \<Rightarrow> [])\<rparr>]
               \<and> observers (call_cleanup (fst (autoInitIFrameResizing opts w))
                              (DOMContentLoaded (snd (autoInitIFrameResizing opts w)))) =
                    obs @ [\<lparr>observer_callback_scope = opts, observed = []\<rparr>])"
proof -
  let ?f = "fst (autoInitIFrameResizing opts w)"
  let ?w1 = "snd (autoInitIFrameResizing opts w)"
  have f: "?f = LateBound (var_count w)"
    using assms by (simp add: autoInit_loading)
  have var: "cleanup_vars ?w1 (var_count w) = Noop"
    using assms by (simp add: autoInit_loading)
  have early: "call_cleanup ?f ?w1 = ?w1"
    by (simp add: f var)
  obtain obs where obs: "observers (DOMContentLoaded ?w1) = obs @ [attached opts (body w)]"
    and cell: "cleanup_vars (DOMContentLoaded ?w1) (var_count w) = Disconnect (length obs)"
    using DOMContentLoaded_observer [OF assms, of opts] by blast
  have "observers (call_cleanup ?f (DOMContentLoaded ?w1)) =
          obs @ [\<lparr>observer_callback_scope = opts, observed = []\<rparr>]"
    by (simp add: f cell disconnect_def obs attached_def)
  with obs have "\<exists>obs. observers (DOMContentLoaded ?w1) =
                    obs @ [\<lparr>observer_callback_scope = opts,
                             observed = (case body w of Some e \<Rightarrow> [e] | None \<Rightarrow> [])\<rparr>]
               \<and> observers (call_cleanup ?f (DOMContentLoaded ?w1)) =
                    obs @ [\<lparr>observer_callback_scope = opts, observed = []\<rparr>]"
    by (auto simp add: attached_def)
  moreover have "\<forall>w'. call_cleanup ?f w' = call_init_cleanup (cleanup_vars w' (var_count w)) w'"
    by (simp add: f)
  ultimately show ?thesis
    using f early by simp
qed

theorem late_bound_cleanup_witness:
  "window_defined loading_page \<and> readyState loading_page = ''loading''
   \<and> call_cleanup (fst (autoInitIFrameResizing no_hooks loading_page))
        (snd (autoInitIFrameResizing no_hooks loading_page)) =
       snd (autoInitIFrameResizing no_hooks loading_page)
   \<and> observers (DOMContentLoaded
        (call_cleanup (fst (autoInitIFrameResizing no_hooks loading_page))
           (snd (autoInitIFrameResizing no_hooks loading_page)))) =
       [\<lparr>observer_callback_scope = no_hooks, observed = [Element 0]\<rparr>]"
proof -
  have a: "window_defined loading_page" and b: "readyState loading_page = ''loading''"
    by (simp_all add: loading_page_def fresh_page_def)
  have obs: "observers (DOMContentLoaded (snd (autoInitIFrameResizing no_hooks loading_page))) =
          [\<lparr>observer_callback_scope = no_hooks, observed = [Element 0]\<rparr>]"
    by (simp add: eval_defs loading_page_def)
  have early: "call_cleanup (fst (autoInitIFrameResizing no_hooks loading_page))
        (snd (autoInitIFrameResizing no_hooks loading_page)) =
       snd (autoInitIFrameResizing no_hooks loading_page)"
    using late_bound_cleanup [OF a b, of no_hooks] by blast
  show ?thesis
    using a b obs by (simp only: early)
qed

subsection \<open>The failure handler\<close>

lemma run_catch_eq: "run_catch opts e w = w\<lparr>trace := trace w @ handler_effects opts e\<rparr>"
  by (simp add: run_catch_def catch_handler_def handler_effects_def console_warn_def emit_def
      Let_def split: option.splits completion.splits)

lemma fold_run_catch_eq:
  "fold (\<lambda>h. run_catch h e) hs w = w\<lparr>trace := trace w @ concat (map (\<lambda>h. handler_effects h e) hs)\<rparr>"
  by (induction hs arbitrary: w) (simp_all add: run_catch_eq)

lemma reject_pending:
  assumes "p < length (promises w)" and "state (promises w ! p) = Pending"
  shows "reject p e w =
           w\<lparr>promises := (promises w)[p := (promises w ! p)\<lparr>state := Rejected e\<rparr>],
             trace := trace w @ CallReject p e
                        # concat (map (\<lambda>h. handler_effects h e) (catch_handlers (promises w ! p)))\<rparr>"
  using assms by (simp add: reject_def emit_def Let_def fold_run_catch_eq)

text \<open>
  C6, as the code has it. When the promise to which the bridge attached its handler is
  rejected with \<open>e\<close>, the trace grows by: the rejection, the warning with the error's
  message, the call of \<open>onError\<close> if that hook is present, and then, if \<open>onError\<close> is absent
  or returned, the call of \<open>captureError\<close> if that hook is present. A hook that throws ends
  the handler: what it threw is an unhandled rejection, and after a throwing \<open>onError\<close>
  the hook \<open>captureError\<close> is not called. Apart from the trace and the state of the
  promise the world is unchanged, so with no hooks the failure is only logged.
\<close>

theorem failure_hooks_in_order:
  assumes "p < length (promises w)"
    and "state (promises w ! p) = Pending"
    and "catch_handlers (promises w ! p) = [opts]"
  shows "reject p e w =
           w\<lparr>promises := (promises w)[p := (promises w ! p)\<lparr>state := Rejected e\<rparr>],
             trace := trace w @ [CallReject p e, ConsoleWarn (message e)]
               @ (case onError opts of None \<Rightarrow> [] | Some f \<Rightarrow> [CallOnError e])
               @ (case (case onError opts of None \<Rightarrow> Returns | Some f \<Rightarrow> f e) of
                    Throws x \<Rightarrow> [UnhandledRejection x]
                  | Returns \<Rightarrow>
                      (case captureError opts of
                         None \<Rightarrow> []
                       | Some g \<Rightarrow>
                           CallCaptureError e
                             # (case g e of Returns \<Rightarrow> [] | Throws y \<Rightarrow> [UnhandledRejection y])))\<rparr>"
  using assms by (simp add: reject_pending handler_effects_def)

theorem failure_hooks_in_order_witness:
  "trace (run [CallInit \<lparr>onError = Some returning_hook, captureError = Some returning_hook\<rparr>,
               ResizeNotification 0 [example_entry 500 520],
               TimePasses 20000 :: (real, unit) event] example_page) =
     [SetTimeout 0 20000,
      AddEventListener \<lparr>command = resize_command ''id-'' 500, timeout = 0, settle = 0\<rparr>,
      PostMessage (resize_command ''id-'' 500) ''*'',
      RemoveEventListener \<lparr>command = resize_command ''id-'' 500, timeout = 0, settle = 0\<rparr>,
      CallReject 0 timeout_error,
      ConsoleWarn ''Timeout exceeded for command resize'',
      CallOnError timeout_error,
      CallCaptureError timeout_error]"
proof -
  let ?opts = "\<lparr>onError = Some returning_hook, captureError = Some returning_hook\<rparr>"
  let ?s = "\<lparr>command = resize_command ''id-'' (500 :: real), timeout = 0, settle = 0\<rparr>"
  let ?w = "removeEventListener ?s
              ((run [CallInit ?opts, ResizeNotification 0 [example_entry 500 520] :: (real, unit) event]
                  example_page)\<lparr>now := 20000, timers := []\<rparr>)"
  have run: "run [CallInit ?opts, ResizeNotification 0 [example_entry 500 520],
               TimePasses 20000 :: (real, unit) event] example_page = reject 0 timeout_error ?w"
    by (simp add: eval_defs returning_hook_def resize_command_def timeout_error_def)
  have "0 < length (promises ?w)" and "state (promises ?w ! 0) = Pending"
    and "catch_handlers (promises ?w ! 0) = [?opts]"
    by (simp_all add: eval_defs returning_hook_def)
  from failure_hooks_in_order [OF this, of timeout_error] show ?thesis
    unfolding run by (simp add: eval_defs returning_hook_def resize_command_def timeout_error_def)
qed

text \<open>
  C6 read literally, \<open>captureError\<close> called whenever it is present, fails for an
  \<open>onError\<close> that throws: the page is initialized with both hooks, one resize is
  notified, no response comes and 20000 ms pass. The trace ends with the call of
  \<open>onError\<close> and the unhandled rejection; \<open>captureError\<close> is never called.
\<close>

theorem throwing_onError_skips_captureError:
  "captureError \<lparr>onError = Some throwing_hook, captureError = Some returning_hook\<rparr> \<noteq> None
   \<and> trace (run [CallInit \<lparr>onError = Some throwing_hook, captureError = Some returning_hook\<rparr>,
                  ResizeNotification 0 [example_entry 500 520],
                  TimePasses 20000 :: (real, unit) event] example_page) =
       [SetTimeout 0 20000,
        AddEventListener \<lparr>command = resize_command ''id-'' 500, timeout = 0, settle = 0\<rparr>,
        PostMessage (resize_command ''id-'' 500) ''*'',
        RemoveEventListener \<lparr>command = resize_command ''id-'' 500, timeout = 0, settle = 0\<rparr>,
        CallReject 0 timeout_error,
        ConsoleWarn ''Timeout exceeded for command resize'',
        CallOnError timeout_error,
        UnhandledRejection timeout_error]"
  by (simp add: eval_defs throwing_hook_def returning_hook_def resize_command_def timeout_error_def)

section \<open>The dispatcher\<close>

lemma paired_map: "paired w \<Longrightarrow> map callback (timers w) = message_listeners w"
  by (simp add: paired_def)

lemma paired_distinct:
  "paired w \<Longrightarrow> distinct (map handle (timers w)) \<and> distinct (map settle (message_listeners w))"
  by (simp add: paired_def)

lemma paired_timer:
  "paired w \<Longrightarrow> t \<in> set (timers w) \<Longrightarrow>
   handle t = timeout (callback t) \<and> handle t < next_timer w"
  unfolding paired_def by blast

lemma paired_settle_bound:
  "paired w \<Longrightarrow> s \<in> set (message_listeners w) \<Longrightarrow> settle s < length (promises w)"
  by (simp add: paired_def)

lemma paired_pending_iff:
  "paired w \<Longrightarrow> q < length (promises w) \<Longrightarrow>
   (state (promises w ! q) = Pending) = (q \<in> settle ` set (message_listeners w))"
  by (simp add: paired_def)

lemma paired_rejected:
  "paired w \<Longrightarrow> q < length (promises w) \<Longrightarrow> state (promises w ! q) = Rejected e \<Longrightarrow>
   e = timeout_error"
  by (simp add: paired_def)

lemma paired_settle_calls:
  "paired w \<Longrightarrow>
   settle_calls q w =
     (if q < length (promises w) \<and> state (promises w ! q) \<noteq> Pending then 1 else 0)"
  by (simp add: paired_def)

lemma map_filter_removeAll:
  "map f (filter (\<lambda>t. f t \<noteq> s) ts) = removeAll s (map f ts)"
  by (induction ts) auto

lemma paired_callback_inj:
  assumes "paired w"
  shows "inj_on callback (set (timers w))"
proof (rule inj_onI)
  fix t t' assume t: "t \<in> set (timers w)" and t': "t' \<in> set (timers w)"
    and eq: "callback t = callback t'"
  from paired_timer [OF assms t] paired_timer [OF assms t'] eq
  have "handle t = handle t'" by simp
  moreover from paired_distinct [OF assms] have "inj_on handle (set (timers w))"
    by (simp add: distinct_map)
  ultimately show "t = t'" using t t' by (auto dest: inj_onD)
qed

lemma paired_listener_timer:
  assumes "paired w" and "s \<in> set (message_listeners w)"
  obtains t where "t \<in> set (timers w)" and "callback t = s"
proof -
  have "set (map callback (timers w)) = set (message_listeners w)"
    using paired_map [OF assms(1)] by simp
  with assms(2) have "s \<in> callback ` set (timers w)" by simp
  then show thesis using that by auto
qed

lemma paired_timer_listener:
  assumes "paired w" and "t \<in> set (timers w)"
  shows "callback t \<in> set (message_listeners w)"
proof -
  have "set (map callback (timers w)) = set (message_listeners w)"
    using paired_map [OF assms(1)] by simp
  with assms(2) show ?thesis by auto
qed

lemma paired_handle_filter:
  assumes "paired w" and "s \<in> set (message_listeners w)"
  shows "filter (\<lambda>t. handle t \<noteq> timeout s) (timers w) = filter (\<lambda>t. callback t \<noteq> s) (timers w)"
proof (rule filter_cong [OF refl])
  fix t assume t: "t \<in> set (timers w)"
  from assms obtain t' where t': "t' \<in> set (timers w)" and s: "callback t' = s"
    by (rule paired_listener_timer)
  have inj: "inj_on handle (set (timers w))"
    using paired_distinct [OF assms(1)] by (simp add: distinct_map)
  have h: "handle t = timeout (callback t)" "handle t' = timeout s"
    using paired_timer [OF assms(1) t] paired_timer [OF assms(1) t'] s by auto
  show "(handle t \<noteq> timeout s) = (callback t \<noteq> s)"
  proof
    assume "handle t \<noteq> timeout s" with h show "callback t \<noteq> s" by auto
  next
    assume ne: "callback t \<noteq> s"
    show "handle t \<noteq> timeout s"
    proof
      assume "handle t = timeout s"
      with h have "handle t = handle t'" by simp
      with inj t t' have "t = t'" by (auto dest: inj_onD)
      with s ne show False by simp
    qed
  qed
qed

lemma paired_removeAll_timer:
  assumes "paired w" and "t \<in> set (timers w)"
  shows "removeAll t (timers w) = filter (\<lambda>t'. callback t' \<noteq> callback t) (timers w)"
proof -
  have "removeAll t (timers w) = filter (\<lambda>t'. t \<noteq> t') (timers w)"
    by (simp add: removeAll_filter_not_eq)
  also have "\<dots> = filter (\<lambda>t'. callback t' \<noteq> callback t) (timers w)"
    using paired_callback_inj [OF assms(1)] assms(2)
    by (intro filter_cong refl) (auto dest: inj_onD)
  finally show ?thesis .
qed

lemma paired_pending:
  assumes "paired w" and "s \<in> set (message_listeners w)"
  shows "settle s < length (promises w)" and "state (promises w ! settle s) = Pending"
  using paired_settle_bound [OF assms] paired_pending_iff [OF assms(1) paired_settle_bound [OF assms]]
    assms(2) by auto

lemma handler_effects_no_settle: "filter (is_settle_call p) (handler_effects opts e) = []"
  by (simp add: handler_effects_def split: option.splits completion.splits)

lemma concat_handler_effects_no_settle:
  "filter (is_settle_call p) (concat (map (\<lambda>h. handler_effects h e) hs)) = []"
  by (induction hs) (simp_all add: handler_effects_no_settle)

lemma paired_retire:
  assumes p: "paired w" and s: "s \<in> set (message_listeners w)"
    and x: "x = Fulfilled \<or> x = Rejected timeout_error"
    and tr: "\<And>p. length (filter (is_settle_call p) tr) = (if p = settle s then 1 else 0)"
  shows "paired (retire s x tr w)"
proof -
  let ?w = "retire s x tr w"
  have inj: "inj_on settle (set (message_listeners w))"
    using paired_distinct [OF p] by (simp add: distinct_map)
  have pend: "settle s < length (promises w)" "state (promises w ! settle s) = Pending"
    using paired_pending [OF p s] by simp_all
  have len: "length (promises ?w) = length (promises w)"
    by (simp add: retire_def)
  have st: "\<And>q. q < length (promises w) \<Longrightarrow>
      state (promises ?w ! q) = (if q = settle s then x else state (promises w ! q))"
    by (simp add: retire_def nth_list_update)
  have 1: "map callback (timers ?w) = message_listeners ?w"
    using paired_map [OF p] by (simp add: retire_def map_filter_removeAll)
  have 2: "distinct (map handle (timers ?w))"
    using paired_distinct [OF p] by (simp add: retire_def distinct_map_filter)
  have 3: "distinct (map settle (message_listeners ?w))"
    using paired_distinct [OF p]
    by (simp add: retire_def removeAll_filter_not_eq distinct_map_filter)
  have 4: "\<forall>t \<in> set (timers ?w). handle t = timeout (callback t) \<and> handle t < next_timer ?w"
  proof
    fix t assume "t \<in> set (timers ?w)"
    then have "t \<in> set (timers w)" by (simp add: retire_def)
    from paired_timer [OF p this]
    show "handle t = timeout (callback t) \<and> handle t < next_timer ?w"
      by (simp add: retire_def)
  qed
  have 5: "\<forall>s' \<in> set (message_listeners ?w). settle s' < length (promises ?w)"
    using paired_settle_bound [OF p] by (auto simp add: retire_def)
  have img: "\<And>q. q \<in> settle ` set (message_listeners ?w) \<longleftrightarrow>
      q \<noteq> settle s \<and> q \<in> settle ` set (message_listeners w)"
    using inj s by (auto simp add: retire_def dest: inj_onD)
  have 6: "\<forall>q < length (promises ?w).
        (state (promises ?w ! q) = Pending) = (q \<in> settle ` set (message_listeners ?w))"
  proof (intro allI impI)
    fix q assume "q < length (promises ?w)"
    then have q: "q < length (promises w)" by (simp add: len)
    have old: "(state (promises w ! q) = Pending) = (q \<in> settle ` set (message_listeners w))"
      using p q by (rule paired_pending_iff)
    show "(state (promises ?w ! q) = Pending) = (q \<in> settle ` set (message_listeners ?w))"
      using x old by (auto simp add: st [OF q] img)
  qed
  have 7: "\<forall>q < length (promises ?w). \<forall>e. state (promises ?w ! q) = Rejected e \<longrightarrow> e = timeout_error"
  proof (intro allI impI)
    fix q e assume "q < length (promises ?w)" and r: "state (promises ?w ! q) = Rejected e"
    then have q: "q < length (promises w)" by (simp add: len)
    have old: "\<forall>e. state (promises w ! q) = Rejected e \<longrightarrow> e = timeout_error"
      using paired_rejected [OF p q] by blast
    show "e = timeout_error"
      using x old r by (auto simp add: st [OF q] split: if_splits)
  qed
  have 8: "\<forall>q. settle_calls q ?w =
          (if q < length (promises ?w) \<and> state (promises ?w ! q) \<noteq> Pending then 1 else 0)"
  proof
    fix q
    have old: "settle_calls q w =
          (if q < length (promises w) \<and> state (promises w ! q) \<noteq> Pending then 1 else 0)"
      using p by (rule paired_settle_calls)
    have new: "settle_calls q ?w = settle_calls q w + (if q = settle s then 1 else 0)"
      by (simp add: settle_calls_def retire_def tr)
    show "settle_calls q ?w =
          (if q < length (promises ?w) \<and> state (promises ?w ! q) \<noteq> Pending then 1 else 0)"
    proof (cases "q < length (promises w)")
      case True
      then show ?thesis using x pend old new by (auto simp add: len st [OF True])
    next
      case False
      then show ?thesis using pend old new by (auto simp add: len)
    qed
  qed
  show ?thesis
    unfolding paired_def using 1 2 3 4 5 6 7 8 by blast
qed

lemma acknowledged_settle:
  "length (filter (is_settle_call p) (acknowledged s)) = (if p = settle s then 1 else 0)"
  by (simp add: acknowledged_def)

lemma timed_out_settle:
  "length (filter (is_settle_call p) (timed_out s w)) = (if p = settle s then 1 else 0)"
  by (simp add: timed_out_def concat_handler_effects_no_settle)

lemma listener_mismatch: "\<not> matches s r \<Longrightarrow> listener s r w = w"
  by (auto simp add: listener_def matches_def)

lemma listener_match:
  assumes "paired w" and "s \<in> set (message_listeners w)" and "matches s r"
  shows "listener s r w = retire s Fulfilled (acknowledged s) w"
proof -
  have "listener s r w = resolve (settle s) (removeEventListener s (clearTimeout (timeout s) w))"
    using assms(3) by (auto simp add: listener_def matches_def)
  also have "\<dots> = retire s Fulfilled (acknowledged s) w"
    using paired_pending [OF assms(1,2)] paired_handle_filter [OF assms(1,2)]
    by (simp add: resolve_def removeEventListener_def clearTimeout_def emit_def Let_def
        retire_def acknowledged_def)
  finally show ?thesis .
qed

lemma deliver_eq:
  assumes "paired w"
  shows "(if s \<in> set (message_listeners w) then listener s r w else w) =
           (if s \<in> set (message_listeners w) \<and> matches s r
            then retire s Fulfilled (acknowledged s) w else w)"
  using listener_match [OF assms, of s r] listener_mismatch [of s r w] by auto

lemma fire_eq:
  assumes "paired w"
  shows "fire t w =
           (if t \<in> set (timers w)
            then retire (callback t) (Rejected timeout_error) (timed_out (callback t) w) w else w)"
proof (cases "t \<in> set (timers w)")
  case True
  let ?s = "callback t"
  have s: "?s \<in> set (message_listeners w)"
    using assms True by (rule paired_timer_listener)
  let ?w = "removeEventListener ?s (w\<lparr>timers := removeAll t (timers w)\<rparr>)"
  have "settle ?s < length (promises ?w)" and "state (promises ?w ! settle ?s) = Pending"
    using paired_pending [OF assms s] by (simp_all add: removeEventListener_def emit_def)
  then have "reject (settle ?s) timeout_error ?w =
     ?w\<lparr>promises := (promises ?w)[settle ?s := (promises ?w ! settle ?s)\<lparr>state := Rejected timeout_error\<rparr>],
        trace := trace ?w @ CallReject (settle ?s) timeout_error
                   # concat (map (\<lambda>h. handler_effects h timeout_error)
                       (catch_handlers (promises ?w ! settle ?s)))\<rparr>"
    by (rule reject_pending)
  then have "fire t w = retire ?s (Rejected timeout_error) (timed_out ?s w) w"
    using True paired_removeAll_timer [OF assms True]
    by (simp add: fire_def timeout_callback_def timeout_error_def [symmetric]
        removeEventListener_def emit_def retire_def timed_out_def)
  with True show ?thesis by simp
next
  case False
  then show ?thesis by (simp add: fire_def)
qed

lemma paired_acknowledged:
  "paired w \<Longrightarrow> s \<in> set (message_listeners w) \<Longrightarrow> paired (retire s Fulfilled (acknowledged s) w)"
  by (rule paired_retire) (simp_all add: acknowledged_settle)

lemma paired_timed_out:
  "paired w \<Longrightarrow> s \<in> set (message_listeners w) \<Longrightarrow>
   paired (retire s (Rejected timeout_error) (timed_out s w) w)"
  by (rule paired_retire) (simp_all add: timed_out_settle)

lemma fold_deliver_induct:
  assumes "P w"
    and "\<And>s w. P w \<Longrightarrow> s \<in> set xs \<Longrightarrow> s \<in> set (message_listeners w) \<Longrightarrow> matches s r \<Longrightarrow>
           P (retire s Fulfilled (acknowledged s) w)"
    and "\<And>w. P w \<Longrightarrow> paired w"
  shows "P (fold (\<lambda>s w'. if s \<in> set (message_listeners w') then listener s r w' else w') xs w)"
  using assms
proof (induction xs arbitrary: w)
  case Nil
  then show ?case by simp
next
  case (Cons x xs)
  have "P (if x \<in> set (message_listeners w) then listener x r w else w)"
    using Cons.prems(1) Cons.prems(2) [of w x] Cons.prems(3) [OF Cons.prems(1)]
    by (simp add: deliver_eq)
  then show ?case
    using Cons.IH Cons.prems(2,3) by simp
qed

lemma fold_fire_induct:
  assumes "P w"
    and "\<And>t w. P w \<Longrightarrow> t \<in> set ds \<Longrightarrow> t \<in> set (timers w) \<Longrightarrow>
           P (retire (callback t) (Rejected timeout_error) (timed_out (callback t) w) w)"
    and "\<And>w. P w \<Longrightarrow> paired w"
  shows "P (fold fire ds w)"
  using assms
proof (induction ds arbitrary: w)
  case Nil
  then show ?case by simp
next
  case (Cons d ds)
  have "P (fire d w)"
    using Cons.prems(1) Cons.prems(2) [of w d] Cons.prems(3) [OF Cons.prems(1)]
    by (simp add: fire_eq)
  then show ?case
    using Cons.IH Cons.prems(2,3) by simp
qed

lemma paired_message_event: "paired w \<Longrightarrow> paired (message_event r w)"
  unfolding message_event_def
  by (rule fold_deliver_induct [where P = paired]) (simp_all add: paired_acknowledged)

lemma paired_fold_fire: "paired w \<Longrightarrow> paired (fold fire ds w)"
  by (rule fold_fire_induct [where P = paired])
    (simp_all add: paired_timed_out paired_timer_listener)

lemma retire_fields:
  "now (retire s x tr w) = now w"
  "next_timer (retire s x tr w) = next_timer w"
  "timers (retire s x tr w) = filter (\<lambda>t. callback t \<noteq> s) (timers w)"
  "message_listeners (retire s x tr w) = removeAll s (message_listeners w)"
  "length (promises (retire s x tr w)) = length (promises w)"
  "trace (retire s x tr w) = trace w @ tr"
  by (simp_all add: retire_def)

lemma retire_state:
  "q < length (promises w) \<Longrightarrow>
   state (promises (retire s x tr w) ! q) = (if q = settle s then x else state (promises w ! q))"
  by (simp add: retire_def nth_list_update)

lemma retire_handlers:
  "q < length (promises w) \<Longrightarrow>
   catch_handlers (promises (retire s x tr w) ! q) = catch_handlers (promises w ! q)"
  by (cases "q = settle s") (simp_all add: retire_def)

lemma tracked_retire: "tracked s0 D w \<Longrightarrow> tracked s0 D (retire s x tr w)"
  by (simp add: tracked_def retire_fields)

lemma retire_settled:
  assumes "paired w" and "s \<in> set (message_listeners w)"
    and "q < length (promises w)" and "state (promises w ! q) \<noteq> Pending"
  shows "state (promises (retire s x tr w) ! q) = state (promises w ! q)"
  using paired_pending [OF assms(1,2)] assms(3,4) by (auto simp add: retire_state)

lemma retire_other:
  assumes "tracked s0 D w" and "s \<in> set (message_listeners w)" and "s \<noteq> s0"
  shows "state (promises (retire s x tr w) ! settle s0) = state (promises w ! settle s0)"
    and "s0 \<in> set (message_listeners w) \<Longrightarrow> s0 \<in> set (message_listeners (retire s x tr w))"
    and "t \<in> set (timers w) \<Longrightarrow> callback t = s0 \<Longrightarrow> t \<in> set (timers (retire s x tr w))"
  using assms by (auto simp add: tracked_def retire_state retire_fields)

subsection \<open>A message event\<close>

lemma well_formed_retire:
  "well_formed w \<Longrightarrow> s \<in> set (message_listeners w) \<Longrightarrow>
   x = Fulfilled \<or> x = Rejected timeout_error \<Longrightarrow>
   (\<And>p. length (filter (is_settle_call p) tr) = (if p = settle s then 1 else 0)) \<Longrightarrow>
   well_formed (retire s x tr w)"
  by (simp add: well_formed_def paired_retire retire_fields)

lemma well_formed_message_event:
  assumes "well_formed w"
  shows "well_formed (message_event r w)"
  unfolding message_event_def
proof (rule fold_deliver_induct [where P = well_formed])
  show "well_formed w" by (rule assms)
next
  fix s and w' :: "'a world"
  assume "well_formed w'" and "s \<in> set (message_listeners w')"
  then show "well_formed (retire s Fulfilled (acknowledged s) w')"
    by (rule well_formed_retire) (simp_all add: acknowledged_settle)
next
  fix w' :: "'a world"
  assume "well_formed w'" then show "paired w'" by (simp add: well_formed_def)
qed

lemma now_message_event:
  assumes "paired w"
  shows "now (message_event r w) = now w"
proof -
  let ?P = "\<lambda>w'. paired w' \<and> now w' = now w"
  have "?P (message_event r w)"
    unfolding message_event_def
  proof (rule fold_deliver_induct [where P = ?P])
    show "?P w" using assms by simp
  next
    fix s and w' :: "'a world"
    assume "?P w'" and "s \<in> set (message_listeners w')"
    then show "?P (retire s Fulfilled (acknowledged s) w')"
      by (simp add: paired_acknowledged retire_fields)
  qed simp
  then show ?thesis by simp
qed

lemma tracked_message_event:
  assumes "paired w" and "tracked s0 D w"
  shows "tracked s0 D (message_event r w)"
proof -
  let ?P = "\<lambda>w'. paired w' \<and> tracked s0 D w'"
  have "?P (message_event r w)"
    unfolding message_event_def
  proof (rule fold_deliver_induct [where P = ?P])
    show "?P w" using assms by simp
  next
    fix s and w' :: "'a world"
    assume "?P w'" and "s \<in> set (message_listeners w')"
    then show "?P (retire s Fulfilled (acknowledged s) w')"
      by (simp add: paired_acknowledged tracked_retire)
  qed simp
  then show ?thesis by simp
qed


lemma mismatch_message_event:
  assumes "paired w" and "tracked s0 D w" and "\<not> matches s0 r"
  shows "state (promises (message_event r w) ! settle s0) = state (promises w ! settle s0)"
    and "s0 \<in> set (message_listeners w) \<Longrightarrow> s0 \<in> set (message_listeners (message_event r w))"
proof -
  let ?P = "\<lambda>w'. paired w' \<and> tracked s0 D w'
     \<and> state (promises w' ! settle s0) = state (promises w ! settle s0)
     \<and> (s0 \<in> set (message_listeners w) \<longrightarrow> s0 \<in> set (message_listeners w'))"
  have "?P (message_event r w)"
    unfolding message_event_def
  proof (rule fold_deliver_induct [where P = ?P])
    show "?P w" using assms by simp
  next
    fix s w' assume P: "?P w'" and s: "s \<in> set (message_listeners w')" and m: "matches s r"
    from m assms(3) have ne: "s \<noteq> s0" by auto
    from P have t: "tracked s0 D w'" by simp
    show "?P (retire s Fulfilled (acknowledged s) w')"
      using P s retire_other [OF t s ne]
      by (simp add: paired_acknowledged tracked_retire)
  qed simp
  then show "state (promises (message_event r w) ! settle s0) = state (promises w ! settle s0)"
    and "s0 \<in> set (message_listeners w) \<Longrightarrow> s0 \<in> set (message_listeners (message_event r w))"
    by simp_all
qed

lemma fold_deliver_match:
  assumes "paired w" and "matches s0 r" and "settle s0 < length (promises w)"
    and "(s0 \<in> set xs \<and> s0 \<in> set (message_listeners w))
         \<or> state (promises w ! settle s0) = Fulfilled"
  shows "state (promises (fold (\<lambda>s w'. if s \<in> set (message_listeners w') then listener s r w' else w')
                            xs w) ! settle s0) = Fulfilled"
  using assms
proof (induction xs arbitrary: w)
  case Nil
  then show ?case by simp
next
  case (Cons x xs)
  let ?w = "if x \<in> set (message_listeners w) \<and> matches x r
            then retire x Fulfilled (acknowledged x) w else w"
  have step: "(if x \<in> set (message_listeners w) then listener x r w else w) = ?w"
    using Cons.prems(1) by (rule deliver_eq)
  have p: "paired ?w"
    using Cons.prems(1) by (simp add: paired_acknowledged)
  have l: "settle s0 < length (promises ?w)"
    using Cons.prems(3) by (simp add: retire_fields)
  have "(s0 \<in> set xs \<and> s0 \<in> set (message_listeners ?w))
         \<or> state (promises ?w ! settle s0) = Fulfilled"
  proof (cases "state (promises w ! settle s0) = Fulfilled")
    case True
    then show ?thesis
      using Cons.prems(1,3) by (simp add: retire_settled)
  next
    case False
    with Cons.prems(4) have in_xs: "s0 \<in> set (x # xs)" and reg: "s0 \<in> set (message_listeners w)"
      by simp_all
    show ?thesis
    proof (cases "x = s0")
      case True
      then show ?thesis
        using reg Cons.prems(2,3) by (simp add: retire_state)
    next
      case False
      with in_xs reg show ?thesis by (simp add: retire_fields)
    qed
  qed
  from Cons.IH [OF p Cons.prems(2) l this] show ?case
    by (simp only: fold_simps step o_apply)
qed

lemma match_message_event:
  assumes "paired w" and "matches s0 r" and "s0 \<in> set (message_listeners w)"
  shows "state (promises (message_event r w) ! settle s0) = Fulfilled"
  unfolding message_event_def
  using assms paired_pending(1) [OF assms(1,3)] by (intro fold_deliver_match) simp_all

lemma removed_then_rejected_append:
  "removed_then_rejected s tr \<Longrightarrow> removed_then_rejected s (tr @ xs)"
  unfolding removed_then_rejected_def by (metis append.assoc)

lemma removed_then_rejected_timed_out:
  "removed_then_rejected s (tr @ timed_out s w)"
  unfolding removed_then_rejected_def timed_out_def by (metis append_Cons append_Nil)

lemma paired_now: "paired (w\<lparr>now := n\<rparr>) = paired w"
  by (simp add: paired_def settle_calls_def)

lemma tracked_now: "tracked s D (w\<lparr>now := n\<rparr>) = tracked s D w"
  by (simp add: tracked_def)

lemma fire_step:
  assumes "paired w"
  shows "paired (fire d w)"
    and "now (fire d w) = now w"
    and "length (promises (fire d w)) = length (promises w)"
    and "set (timers (fire d w)) \<subseteq> set (timers w) - {d}"
    and "tracked s0 D w \<Longrightarrow> tracked s0 D (fire d w)"
    and "\<exists>xs. trace (fire d w) = trace w @ xs"
proof -
  have l: "d \<in> set (timers w) \<Longrightarrow> callback d \<in> set (message_listeners w)"
    using assms by (rule paired_timer_listener)
  show "paired (fire d w)"
    using assms l by (simp add: fire_eq paired_timed_out)
  show "now (fire d w) = now w"
    using assms by (simp add: fire_eq retire_fields)
  show "length (promises (fire d w)) = length (promises w)"
    using assms by (simp add: fire_eq retire_fields)
  show "set (timers (fire d w)) \<subseteq> set (timers w) - {d}"
    using assms by (auto simp add: fire_eq retire_fields)
  show "tracked s0 D w \<Longrightarrow> tracked s0 D (fire d w)"
    using assms by (simp add: fire_eq tracked_retire)
  show "\<exists>xs. trace (fire d w) = trace w @ xs"
    using assms by (simp add: fire_eq retire_fields)
qed

lemma fire_settled:
  assumes "paired w" and "q < length (promises w)" and "state (promises w ! q) \<noteq> Pending"
  shows "state (promises (fire d w) ! q) = state (promises w ! q)"
  using assms paired_timer_listener [OF assms(1), of d]
  by (simp add: fire_eq retire_settled)

lemma fold_fire_frame:
  assumes "paired w"
  shows "paired (fold fire ds w) \<and> now (fold fire ds w) = now w
       \<and> length (promises (fold fire ds w)) = length (promises w)
       \<and> set (timers (fold fire ds w)) \<subseteq> set (timers w) - set ds
       \<and> (tracked s0 D w \<longrightarrow> tracked s0 D (fold fire ds w))"
  using assms
proof (induction ds arbitrary: w)
  case Nil
  then show ?case by simp
next
  case (Cons d ds)
  note f = fire_step [OF Cons.prems, where d = d]
  from Cons.IH [OF f(1)] f(2,3,4) f(5) [of s0 D] show ?case
    by auto
qed


lemma fold_fire_trace:
  assumes "paired w"
  shows "\<exists>xs. trace (fold fire ds w) = trace w @ xs"
  using assms
proof (induction ds arbitrary: w)
  case Nil
  then show ?case by simp
next
  case (Cons d ds)
  note f = fire_step [OF Cons.prems, where d = d]
  from f(6) obtain xs where "trace (fire d w) = trace w @ xs" by blast
  moreover from Cons.IH [OF f(1)] obtain ys
    where "trace (fold fire ds (fire d w)) = trace (fire d w) @ ys" by blast
  ultimately show ?case by simp
qed

lemma well_formed_time_passes:
  assumes "paired w"
  shows "well_formed (time_passes dt w)"
proof -
  let ?w1 = "w\<lparr>now := now w + dt\<rparr>"
  let ?ds = "sort_key due (filter (\<lambda>t. due t \<le> now ?w1) (timers ?w1))"
  have p: "paired ?w1" using assms by (simp add: paired_now)
  from fold_fire_frame [OF p, of ?ds]
  have "paired (fold fire ?ds ?w1)" and "now (fold fire ?ds ?w1) = now w + dt"
    and "set (timers (fold fire ?ds ?w1)) \<subseteq> set (timers w) - set ?ds"
    by simp_all
  then show ?thesis
    by (auto simp add: well_formed_def time_passes_def Let_def)
qed

lemma now_time_passes:
  assumes "paired w"
  shows "now (time_passes dt w) = now w + dt"
  using fold_fire_frame [where w = "w\<lparr>now := now w + dt\<rparr>"] assms
  by (simp add: time_passes_def Let_def paired_now)

lemma tracked_time_passes:
  assumes "paired w" and "tracked s0 D w"
  shows "tracked s0 D (time_passes dt w)"
  using fold_fire_frame [where w = "w\<lparr>now := now w + dt\<rparr>" and ?s0.0 = s0 and D = D] assms
  by (simp add: time_passes_def Let_def paired_now tracked_now)


text \<open>Before the deadline the timer of a pending dispatch does not run.\<close>

lemma fold_fire_early:
  assumes "paired w" and "tracked s0 D w" and "\<forall>d \<in> set ds. due d \<noteq> D"
  shows "state (promises (fold fire ds w) ! settle s0) = state (promises w ! settle s0)
       \<and> (s0 \<in> set (message_listeners w) \<longrightarrow> s0 \<in> set (message_listeners (fold fire ds w)))"
  using assms
proof (induction ds arbitrary: w)
  case Nil
  then show ?case by simp
next
  case (Cons d ds)
  note f = fire_step [OF Cons.prems(1), where d = d]
  have step: "state (promises (fire d w) ! settle s0) = state (promises w ! settle s0)
       \<and> (s0 \<in> set (message_listeners w) \<longrightarrow> s0 \<in> set (message_listeners (fire d w)))"
  proof (cases "d \<in> set (timers w)")
    case True
    have "due d \<noteq> D" using Cons.prems(3) by simp
    with True Cons.prems(2) have ne: "callback d \<noteq> s0" by (auto simp add: tracked_def)
    have l: "callback d \<in> set (message_listeners w)"
      using Cons.prems(1) True by (rule paired_timer_listener)
    show ?thesis
      using True retire_other(1,2) [OF Cons.prems(2) l ne]
      by (simp add: fire_eq [OF Cons.prems(1)])
  next
    case False
    then show ?thesis by (simp add: fire_def)
  qed
  from Cons.IH [OF f(1) f(5) [OF Cons.prems(2)]] Cons.prems(3) step show ?case
    by simp
qed

lemma early_time_passes:
  assumes "paired w" and "tracked s0 D w" and "now w + dt < D"
  shows "state (promises (time_passes dt w) ! settle s0) = state (promises w ! settle s0)"
    and "s0 \<in> set (message_listeners w) \<Longrightarrow> s0 \<in> set (message_listeners (time_passes dt w))"
  using fold_fire_early [where w = "w\<lparr>now := now w + dt\<rparr>" and ?s0.0 = s0 and D = D
      and ds = "sort_key due (filter (\<lambda>t. due t \<le> now w + dt) (timers w))"] assms
  by (auto simp add: time_passes_def Let_def paired_now tracked_now)

text \<open>At the deadline it does.\<close>

lemma fold_fire_late:
  assumes "paired w" and "settle s0 < length (promises w)"
    and "(t0 \<in> set ds \<and> t0 \<in> set (timers w) \<and> callback t0 = s0)
         \<or> (state (promises w ! settle s0) = Rejected timeout_error
            \<and> removed_then_rejected s0 (trace w))"
  shows "state (promises (fold fire ds w) ! settle s0) = Rejected timeout_error
       \<and> removed_then_rejected s0 (trace (fold fire ds w))"
  using assms
proof (induction ds arbitrary: w)
  case Nil
  then show ?case by simp
next
  case (Cons d ds)
  note f = fire_step [OF Cons.prems(1), where d = d]
  have l: "settle s0 < length (promises (fire d w))"
    using Cons.prems(2) by (simp add: f(3))
  have "(t0 \<in> set ds \<and> t0 \<in> set (timers (fire d w)) \<and> callback t0 = s0)
         \<or> (state (promises (fire d w) ! settle s0) = Rejected timeout_error
            \<and> removed_then_rejected s0 (trace (fire d w)))"
  proof (cases "state (promises w ! settle s0) = Rejected timeout_error
            \<and> removed_then_rejected s0 (trace w)")
    case True
    moreover from f(6) obtain xs where "trace (fire d w) = trace w @ xs" by blast
    ultimately show ?thesis
      using fire_settled [OF Cons.prems(1,2), of d]
      by (simp add: removed_then_rejected_append)
  next
    case False
    with Cons.prems(3) have t0: "t0 \<in> set (d # ds)" "t0 \<in> set (timers w)" "callback t0 = s0"
      by auto
    show ?thesis
    proof (cases "d = t0")
      case True
      then have "fire d w = retire s0 (Rejected timeout_error) (timed_out s0 w) w"
        using t0 by (simp add: fire_eq [OF Cons.prems(1)])
      then show ?thesis
        using Cons.prems(2) by (simp add: retire_state retire_fields removed_then_rejected_timed_out)
    next
      case False
      have "t0 \<in> set (timers (fire d w))"
      proof (cases "d \<in> set (timers w)")
        case True
        with False t0 paired_callback_inj [OF Cons.prems(1)] have "callback t0 \<noteq> callback d"
          by (auto dest: inj_onD)
        with True t0 show ?thesis
          by (simp add: fire_eq [OF Cons.prems(1)] retire_fields)
      next
        case False
        with t0 show ?thesis by (simp add: fire_def)
      qed
      with False t0 show ?thesis by simp
    qed
  qed
  from Cons.IH [OF f(1) l this] show ?case by simp
qed

lemma late_time_passes:
  assumes "paired w" and "tracked s0 D w" and "s0 \<in> set (message_listeners w)"
    and "D \<le> now w + dt"
  shows "state (promises (time_passes dt w) ! settle s0) = Rejected timeout_error"
    and "removed_then_rejected s0 (trace (time_passes dt w))"
proof -
  let ?w1 = "w\<lparr>now := now w + dt\<rparr>"
  let ?ds = "sort_key due (filter (\<lambda>t. due t \<le> now ?w1) (timers ?w1))"
  from assms(1,3) obtain t0 where t0: "t0 \<in> set (timers w)" "callback t0 = s0"
    by (rule paired_listener_timer)
  with assms(2) have "due t0 = D" by (simp add: tracked_def)
  with t0 assms(4) have "t0 \<in> set ?ds \<and> t0 \<in> set (timers ?w1) \<and> callback t0 = s0"
    by simp
  moreover have "paired ?w1" using assms(1) by (simp add: paired_now)
  moreover have "settle s0 < length (promises ?w1)"
    using assms(2) by (simp add: tracked_def)
  ultimately have "state (promises (fold fire ?ds ?w1) ! settle s0) = Rejected timeout_error
       \<and> removed_then_rejected s0 (trace (fold fire ?ds ?w1))"
    by (intro fold_fire_late [where ?t0.0 = t0]) simp_all
  then show "state (promises (time_passes dt w) ! settle s0) = Rejected timeout_error"
    and "removed_then_rejected s0 (trace (time_passes dt w))"
    by (simp_all add: time_passes_def Let_def)
qed

subsection \<open>A dispatch\<close>

lemma dispatch_scope_fresh:
  assumes "paired w"
  shows "dispatch_scope h w \<notin> set (message_listeners w)"
  using paired_settle_bound [OF assms, of "dispatch_scope h w"]
  by (auto simp add: dispatch_scope_def)

lemma observer_callback_world:
  assumes "paired w"
  shows "observer_callback opts (entry # rest) w =
     w\<lparr>promises := promises w @ [\<lparr>state = Pending, catch_handlers = [opts]\<rparr>],
       uuid_used := Suc (uuid_used w),
       timers := timers w @ [\<lparr>handle = next_timer w, due = now w + 20000,
                              callback = dispatch_scope (height (contentRect entry)) w\<rparr>],
       next_timer := Suc (next_timer w),
       message_listeners := message_listeners w @ [dispatch_scope (height (contentRect entry)) w],
       trace := trace w @ [SetTimeout (next_timer w) 20000,
                           AddEventListener (dispatch_scope (height (contentRect entry)) w),
                           PostMessage (command (dispatch_scope (height (contentRect entry)) w)) ''*'']\<rparr>"
proof -
  have "dispatch_scope (height (contentRect entry)) w \<notin> set (message_listeners w)"
    using assms by (rule dispatch_scope_fresh)
  then show ?thesis
    by (simp add: observer_callback_Cons)
      (simp add: sendResizeCommand_def Let_def uuidv4_def setTimeout_def addEventListener_def
        postMessage_def emit_def dispatch_scope_def participants_CHILD_def participants_PARENT_def)
qed

lemma paired_observer_callback:
  assumes p: "paired w"
  shows "paired (observer_callback opts (entry # rest) w)"
proof -
  let ?s = "dispatch_scope (height (contentRect entry)) w"
  let ?w = "observer_callback opts (entry # rest) w"
  note w = observer_callback_world [OF p, of opts entry rest]
  have ts: "timers ?w = timers w @ [\<lparr>handle = next_timer w, due = now w + 20000, callback = ?s\<rparr>]"
    and ls: "message_listeners ?w = message_listeners w @ [?s]"
    and nt: "next_timer ?w = Suc (next_timer w)"
    and ps: "promises ?w = promises w @ [\<lparr>state = Pending, catch_handlers = [opts]\<rparr>]"
    and sc: "\<And>q. settle_calls q ?w = settle_calls q w"
    by (simp_all add: w settle_calls_def)
  have s: "timeout ?s = next_timer w" "settle ?s = length (promises w)"
    by (simp_all add: dispatch_scope_def)
  have 1: "map callback (timers ?w) = message_listeners ?w"
    using paired_map [OF p] by (simp add: ts ls)
  have "next_timer w \<notin> handle ` set (timers w)"
    using paired_timer [OF p] by fastforce
  then have 2: "distinct (map handle (timers ?w))"
    using paired_distinct [OF p] by (simp add: ts)
  have "length (promises w) \<notin> settle ` set (message_listeners w)"
    using paired_settle_bound [OF p] by fastforce
  then have 3: "distinct (map settle (message_listeners ?w))"
    using paired_distinct [OF p] by (simp add: ls s)
  have 4: "\<forall>t \<in> set (timers ?w). handle t = timeout (callback t) \<and> handle t < next_timer ?w"
  proof
    fix t assume "t \<in> set (timers ?w)"
    then consider "t \<in> set (timers w)"
      | "t = \<lparr>handle = next_timer w, due = now w + 20000, callback = ?s\<rparr>"
      by (auto simp add: ts)
    then show "handle t = timeout (callback t) \<and> handle t < next_timer ?w"
    proof cases
      case 1
      from paired_timer [OF p this] show ?thesis by (simp add: nt)
    next
      case 2
      then show ?thesis by (simp add: nt s)
    qed
  qed
  have 5: "\<forall>s' \<in> set (message_listeners ?w). settle s' < length (promises ?w)"
    using paired_settle_bound [OF p] by (auto simp add: ls ps s less_Suc_eq)
  have 6: "\<forall>q < length (promises ?w).
        (state (promises ?w ! q) = Pending) = (q \<in> settle ` set (message_listeners ?w))"
  proof (intro allI impI)
    fix q assume "q < length (promises ?w)"
    then consider "q < length (promises w)" | "q = length (promises w)"
      by (auto simp add: ps less_Suc_eq)
    then show "(state (promises ?w ! q) = Pending) = (q \<in> settle ` set (message_listeners ?w))"
    proof cases
      case 1
      with paired_pending_iff [OF p 1] show ?thesis
        by (auto simp add: ps ls s nth_append)
    next
      case 2
      then show ?thesis by (simp add: ps ls s)
    qed
  qed
  have 7: "\<forall>q < length (promises ?w). \<forall>e. state (promises ?w ! q) = Rejected e \<longrightarrow> e = timeout_error"
  proof (intro allI impI)
    fix q e assume "q < length (promises ?w)" and r: "state (promises ?w ! q) = Rejected e"
    then consider "q < length (promises w)" | "q = length (promises w)"
      by (auto simp add: ps less_Suc_eq)
    then show "e = timeout_error"
    proof cases
      case 1
      with r paired_rejected [OF p 1, of e] show ?thesis by (simp add: ps nth_append)
    next
      case 2
      with r show ?thesis by (simp add: ps)
    qed
  qed
  have 8: "\<forall>q. settle_calls q ?w =
          (if q < length (promises ?w) \<and> state (promises ?w ! q) \<noteq> Pending then 1 else 0)"
  proof
    fix q
    show "settle_calls q ?w =
          (if q < length (promises ?w) \<and> state (promises ?w ! q) \<noteq> Pending then 1 else 0)"
      using paired_settle_calls [OF p, of q]
      by (auto simp add: sc ps nth_append less_Suc_eq)
  qed
  show ?thesis
    unfolding paired_def using 1 2 3 4 5 6 7 8 by blast
qed

lemma well_formed_observer_callback:
  assumes "well_formed w"
  shows "well_formed (observer_callback opts entries w)"
proof (cases entries)
  case Nil
  with assms show ?thesis by (simp add: observer_callback_def)
next
  case (Cons entry rest)
  from assms have p: "paired w" by (simp add: well_formed_def)
  have "\<forall>t \<in> set (timers (observer_callback opts (entry # rest) w)).
          now (observer_callback opts (entry # rest) w) < due t"
    using assms by (auto simp add: observer_callback_world [OF p] well_formed_def)
  with paired_observer_callback [OF p] Cons show ?thesis
    by (simp add: well_formed_def)
qed

lemma tracked_observer_callback:
  assumes "paired w" and "tracked s D w"
  shows "tracked s D (observer_callback opts entries w)"
proof (cases entries)
  case Nil
  with assms show ?thesis by (simp add: observer_callback_def)
next
  case (Cons entry rest)
  have "\<And>t. t \<in> set (timers w) \<Longrightarrow> callback t = s \<Longrightarrow> due t = D"
    and "\<And>s'. s' \<in> set (message_listeners w) \<Longrightarrow> settle s' = settle s \<Longrightarrow> s' = s"
    and l: "settle s < length (promises w)"
    using assms(2) by (auto simp add: tracked_def)
  moreover have "dispatch_scope (height (contentRect entry)) w \<noteq> s
      \<and> settle (dispatch_scope (height (contentRect entry)) w) \<noteq> settle s"
    using l by (auto simp add: dispatch_scope_def)
  ultimately show ?thesis
    unfolding Cons tracked_def observer_callback_world [OF assms(1)] by auto
qed

lemma observer_callback_old_promise:
  assumes "paired w" and "q < length (promises w)"
  shows "promises (observer_callback opts entries w) ! q = promises w ! q"
    and "s \<in> set (message_listeners w) \<Longrightarrow> s \<in> set (message_listeners (observer_callback opts entries w))"
    and "now (observer_callback opts entries w) = now w"
  using assms
  by (cases entries; simp add: observer_callback_def [of _ "[]"] observer_callback_world nth_append)+

lemma observer_callback_tracked_new:
  assumes "well_formed w"
  shows "tracked (dispatch_scope (height (contentRect entry)) w) (now w + 20000)
           (observer_callback opts (entry # rest) w)"
    and "dispatch_scope (height (contentRect entry)) w
           \<in> set (message_listeners (observer_callback opts (entry # rest) w))"
proof -
  from assms have p: "paired w" by (simp add: well_formed_def)
  let ?s = "dispatch_scope (height (contentRect entry)) w"
  have fresh: "?s \<notin> set (message_listeners w)" using p by (rule dispatch_scope_fresh)
  have a: "\<And>t. t \<in> set (timers w) \<Longrightarrow> callback t \<noteq> ?s"
    using paired_timer_listener [OF p] fresh by metis
  have b: "\<And>s'. s' \<in> set (message_listeners w) \<Longrightarrow> settle s' \<noteq> settle ?s"
    using paired_settle_bound [OF p] by (fastforce simp add: dispatch_scope_def)
  have c: "settle ?s = length (promises w)" by (simp add: dispatch_scope_def)
  show "tracked ?s (now w + 20000) (observer_callback opts (entry # rest) w)"
    unfolding tracked_def observer_callback_world [OF p] using a b c by auto
  show "?s \<in> set (message_listeners (observer_callback opts (entry # rest) w))"
    by (simp add: observer_callback_world [OF p])
qed

subsection \<open>The lifecycle functions leave the dispatcher alone\<close>

lemma same_dispatch_refl: "same_dispatch w w"
  by (simp add: same_dispatch_def)

lemma same_dispatch_trans:
  "same_dispatch w w' \<Longrightarrow> same_dispatch w' w'' \<Longrightarrow> same_dispatch w w''"
  by (simp add: same_dispatch_def)

lemma same_dispatch_init: "same_dispatch w (snd (initIFrameResizing opts w))"
  by (simp add: same_dispatch_def initIFrameResizing_def isServerSide_def Let_def observe_def
      console_warn_def emit_def settle_calls_def split: option.splits)

lemma same_dispatch_autoInit: "same_dispatch w (snd (autoInitIFrameResizing opts w))"
proof -
  have "same_dispatch w (snd (autoInitIFrameResizing opts w))
        \<or> snd (autoInitIFrameResizing opts w) = snd (initIFrameResizing opts w)"
    by (simp add: autoInitIFrameResizing_def Let_def split_beta same_dispatch_def settle_calls_def)
  then show ?thesis using same_dispatch_init [of w opts] by auto
qed

lemma same_dispatch_ready_callback: "same_dispatch w (ready_callback l w)"
  using same_dispatch_init [of w "options l"]
  by (simp add: ready_callback_def split_beta same_dispatch_def settle_calls_def)

lemma same_dispatch_fold_ready: "same_dispatch w (fold ready_callback ls w)"
proof (induction ls arbitrary: w)
  case Nil
  show ?case by (simp add: same_dispatch_refl)
next
  case (Cons l ls)
  from same_dispatch_ready_callback [of w l] Cons [of "ready_callback l w"] show ?case
    by (simp add: same_dispatch_trans)
qed

lemma same_dispatch_DOMContentLoaded: "same_dispatch w (DOMContentLoaded w)"
proof -
  have "\<And>x. same_dispatch w (w\<lparr>readyState := x\<rparr>)"
    by (simp add: same_dispatch_def settle_calls_def)
  then show ?thesis
    unfolding DOMContentLoaded_def
    using same_dispatch_fold_ready same_dispatch_trans by blast
qed

lemma same_dispatch_cleanup: "same_dispatch w (call_cleanup f w)"
  by (subst call_cleanup_frame) (simp add: same_dispatch_def settle_calls_def)

lemma same_dispatch_paired:
  assumes "same_dispatch w w'" and "paired w"
  shows "paired w'"
proof -
  from assms(1) have e: "timers w' = timers w" "message_listeners w' = message_listeners w"
    "next_timer w' = next_timer w" "promises w' = promises w"
    "\<And>p. settle_calls p w' = settle_calls p w"
    by (simp_all add: same_dispatch_def)
  from assms(2) show ?thesis
    unfolding paired_def e .
qed

lemma same_dispatch_inv: "same_dispatch w w' \<Longrightarrow> well_formed w \<Longrightarrow> well_formed w'"
  using same_dispatch_paired [of w w'] by (simp add: well_formed_def) (simp add: same_dispatch_def)

lemma same_dispatch_tracked: "same_dispatch w w' \<Longrightarrow> tracked s D w \<Longrightarrow> tracked s D w'"
  by (simp add: same_dispatch_def tracked_def)

lemma step_cases:
  obtains (Message) r where "step ev w = message_event r w" and "ev = Message r"
  | (TimePasses) dt where "step ev w = time_passes dt w" and "ev = TimePasses dt"
  | (Resize) opts entries where "step ev w = observer_callback opts entries w"
      and "duration ev = 0" and "\<And>s. unanswered s [ev]"
  | (Other) "same_dispatch w (step ev w)" and "duration ev = 0" and "\<And>s. unanswered s [ev]"
proof (cases ev)
  case (Message r)
  then show ?thesis using that(1) by simp
next
  case (TimePasses dt)
  then show ?thesis using that(2) by simp
next
  case (ResizeNotification i entries)
  show ?thesis
  proof (cases "i < length (observers w) \<and> observed (observers w ! i) \<noteq> []")
    case True
    with ResizeNotification show ?thesis
      using that(3) [of "observer_callback_scope (observers w ! i)" entries]
      by (simp add: resize_notification_def)
  next
    case False
    with ResizeNotification show ?thesis
      using that(4) by (auto simp add: resize_notification_def same_dispatch_refl)
  qed
next
  case DocumentReady
  then show ?thesis using that(4) by (simp add: same_dispatch_DOMContentLoaded)
next
  case (CallInit opts)
  then show ?thesis using that(4) by (simp add: same_dispatch_init)
next
  case (CallAutoInit opts)
  then show ?thesis using that(4) by (simp add: same_dispatch_autoInit)
next
  case (CallCleanup f)
  then show ?thesis using that(4) by (simp add: same_dispatch_cleanup)
qed

lemma well_formed_paired: "well_formed w \<Longrightarrow> paired w"
  by (simp add: well_formed_def)

lemma now_observer_callback:
  "paired w \<Longrightarrow> now (observer_callback opts entries w) = now w"
  by (cases entries) (simp_all add: observer_callback_def [of _ "[]"] observer_callback_world)

lemma pending_iff_listener:
  assumes "paired w" and "tracked s D w"
  shows "(state (promises w ! settle s) = Pending) = (s \<in> set (message_listeners w))"
proof -
  from assms(2) have l: "settle s < length (promises w)"
    and u: "\<And>s'. s' \<in> set (message_listeners w) \<Longrightarrow> settle s' = settle s \<Longrightarrow> s' = s"
    by (auto simp add: tracked_def)
  from u have "(settle s \<in> settle ` set (message_listeners w)) = (s \<in> set (message_listeners w))"
    by (metis (no_types, lifting) image_iff)
  with paired_pending_iff [OF assms(1) l] show ?thesis by simp
qed


subsection \<open>One event\<close>

lemma well_formed_step:
  assumes "well_formed w"
  shows "well_formed (step ev w)"
proof (cases rule: step_cases [where ev = ev and w = w])
  case (Message r)
  with assms show ?thesis by (simp add: well_formed_message_event)
next
  case (TimePasses dt)
  with assms show ?thesis by (simp add: well_formed_time_passes well_formed_paired)
next
  case (Resize opts entries)
  with assms show ?thesis by (simp add: well_formed_observer_callback)
next
  case Other
  with assms show ?thesis by (auto intro: same_dispatch_inv)
qed

lemma tracked_step:
  assumes "well_formed w" and "tracked s D w"
  shows "tracked s D (step ev w)"
proof (cases rule: step_cases [where ev = ev and w = w])
  case (Message r)
  with assms show ?thesis by (simp add: tracked_message_event well_formed_paired)
next
  case (TimePasses dt)
  with assms show ?thesis by (simp add: tracked_time_passes well_formed_paired)
next
  case (Resize opts entries)
  with assms show ?thesis by (simp add: tracked_observer_callback well_formed_paired)
next
  case Other
  with assms show ?thesis by (auto intro: same_dispatch_tracked)
qed

lemma now_step:
  assumes "well_formed w"
  shows "now (step ev w) = now w + duration ev"
proof (cases rule: step_cases [where ev = ev and w = w])
  case (Message r)
  with assms show ?thesis by (simp add: now_message_event well_formed_paired)
next
  case (TimePasses dt)
  with assms show ?thesis by (simp add: now_time_passes well_formed_paired)
next
  case (Resize opts entries)
  with assms show ?thesis by (simp add: now_observer_callback well_formed_paired)
next
  case Other
  then show ?thesis by (simp add: same_dispatch_def)
qed


lemma pending_step:
  assumes "well_formed w" and "tracked s D w" and "s \<in> set (message_listeners w)"
    and "unanswered s [ev]" and "now w + duration ev < D"
  shows "s \<in> set (message_listeners (step ev w))"
proof (cases rule: step_cases [where ev = ev and w = w])
  case (Message r)
  with assms show ?thesis by (simp add: mismatch_message_event(2) well_formed_paired)
next
  case (TimePasses dt)
  with assms show ?thesis by (simp add: early_time_passes(2) well_formed_paired)
next
  case (Resize opts entries)
  with assms show ?thesis
    using observer_callback_old_promise(2) [OF well_formed_paired [OF assms(1)], of "settle s" s opts entries]
    by (simp add: tracked_def)
next
  case Other
  with assms(3) show ?thesis by (simp add: same_dispatch_def)
qed

subsection \<open>Any sequence of events\<close>

lemma run_Nil: "run [] w = w"
  by (simp add: run_def)

lemma run_Cons: "run (ev # evs) w = run evs (step ev w)"
  by (simp add: run_def)

lemma run_append: "run (xs @ ys) w = run ys (run xs w)"
  by (simp add: run_def)

lemma unanswered_Cons: "unanswered s (ev # evs) = (unanswered s [ev] \<and> unanswered s evs)"
  by (cases ev) simp_all

lemma well_formed_run: "well_formed w \<Longrightarrow> well_formed (run evs w)"
  by (induction evs arbitrary: w) (simp_all add: run_Nil run_Cons well_formed_step)

lemma tracked_run: "well_formed w \<Longrightarrow> tracked s D w \<Longrightarrow> tracked s D (run evs w)"
  by (induction evs arbitrary: w) (simp_all add: run_Nil run_Cons well_formed_step tracked_step)

lemma now_run: "well_formed w \<Longrightarrow> now (run evs w) = now w + elapsed evs"
  by (induction evs arbitrary: w) (simp_all add: run_Nil run_Cons well_formed_step now_step)


lemma pending_run:
  assumes "well_formed w" and "tracked s D w" and "s \<in> set (message_listeners w)"
    and "unanswered s evs" and "now w + elapsed evs < D"
  shows "s \<in> set (message_listeners (run evs w))"
  using assms
proof (induction evs arbitrary: w)
  case Nil
  then show ?case by (simp add: run_Nil)
next
  case (Cons ev evs)
  from Cons.prems(4) have u: "unanswered s [ev]" "unanswered s evs"
    using unanswered_Cons [of s ev evs] by simp_all
  have "now w + duration ev < D"
    using Cons.prems(5) by simp
  with Cons.prems(1,2,3) u(1) have "s \<in> set (message_listeners (step ev w))"
    by (rule pending_step)
  moreover have "now (step ev w) + elapsed evs < D"
    using Cons.prems(5) by (simp add: now_step [OF Cons.prems(1)])
  ultimately show ?case
    using Cons.IH [OF well_formed_step [OF Cons.prems(1)] tracked_step [OF Cons.prems(1,2)], of ev] u(2)
    by (simp add: run_Cons)
qed

lemma dispatch_setup:
  assumes "well_formed w"
  shows "well_formed (observer_callback opts (entry # rest) w)"
    and "tracked (dispatch_scope (height (contentRect entry)) w) (now w + 20000)
           (observer_callback opts (entry # rest) w)"
    and "dispatch_scope (height (contentRect entry)) w
           \<in> set (message_listeners (observer_callback opts (entry # rest) w))"
    and "now (observer_callback opts (entry # rest) w) = now w"
    and "settle (dispatch_scope (height (contentRect entry)) w) = length (promises w)"
  using assms
  by (simp_all add: well_formed_observer_callback observer_callback_tracked_new now_observer_callback
      well_formed_paired) (simp add: dispatch_scope_def)

lemma matches_dispatch_scope:
  "matches (dispatch_scope h w) r =
     (CommandResponse.receiver r = ''child'' \<and> correspondingCommandId r = fst (uuidv4 w))"
  by (simp add: matches_def dispatch_scope_def)

lemma listener_iff_timer:
  assumes "paired w"
  shows "(s \<in> set (message_listeners w)) = (\<exists>t \<in> set (timers w). callback t = s)"
  using paired_map [OF assms, symmetric] by auto

subsection \<open>Identifiers of later dispatches\<close>

lemma later_ids_refl: "later_ids w w"
  by (simp add: later_ids_def)

lemma later_ids_trans: "later_ids w w' \<Longrightarrow> later_ids w' w'' \<Longrightarrow> later_ids w w''"
  by (simp add: later_ids_def)

lemma later_ids_retire: "later_ids w (retire s x tr w)"
  by (simp add: later_ids_def retire_def)

lemma later_ids_message_event:
  assumes "paired w"
  shows "later_ids w (message_event r w)"
proof -
  let ?P = "\<lambda>w'. paired w' \<and> later_ids w w'"
  have "?P (message_event r w)"
    unfolding message_event_def
  proof (rule fold_deliver_induct [where P = ?P])
    show "?P w" using assms by (simp add: later_ids_refl)
  next
    fix s and w' :: "'a world"
    assume "?P w'" and "s \<in> set (message_listeners w')"
    then show "?P (retire s Fulfilled (acknowledged s) w')"
      using later_ids_retire [of w' s Fulfilled "acknowledged s"]
      by (auto simp add: paired_acknowledged intro: later_ids_trans)
  qed simp
  then show ?thesis by simp
qed

lemma later_ids_time_passes:
  assumes "paired w"
  shows "later_ids w (time_passes dt w)"
proof -
  let ?w1 = "w\<lparr>now := now w + dt\<rparr>"
  let ?P = "\<lambda>w'. paired w' \<and> later_ids w w'"
  have "?P (fold fire (sort_key due (filter (\<lambda>t. due t \<le> now ?w1) (timers ?w1))) ?w1)"
  proof (rule fold_fire_induct [where P = ?P])
    show "?P ?w1" using assms by (simp add: paired_now later_ids_def)
  next
    fix t and w' :: "'a world"
    assume "?P w'" and "t \<in> set (timers w')"
    then show "?P (retire (callback t) (Rejected timeout_error) (timed_out (callback t) w') w')"
      using later_ids_retire [of w' "callback t" "Rejected timeout_error" "timed_out (callback t) w'"]
      by (auto simp add: paired_timed_out paired_timer_listener intro: later_ids_trans)
  qed simp
  then show ?thesis by (simp add: time_passes_def Let_def)
qed

lemma later_ids_observer_callback:
  assumes "paired w"
  shows "later_ids w (observer_callback opts entries w)"
  using assms
  by (cases entries)
    (simp_all add: observer_callback_def [of _ "[]"] observer_callback_world later_ids_def)

lemma uuid_used_observer_callback:
  "paired w \<Longrightarrow> uuid_used (observer_callback opts (entry # rest) w) = Suc (uuid_used w)"
  by (simp add: observer_callback_world)

lemma later_ids_init: "later_ids w (snd (initIFrameResizing opts w))"
  by (simp add: later_ids_def initIFrameResizing_def isServerSide_def Let_def observe_def
      console_warn_def emit_def split: option.splits)

lemma later_ids_autoInit: "later_ids w (snd (autoInitIFrameResizing opts w))"
proof -
  have "later_ids w (snd (autoInitIFrameResizing opts w))
        \<or> snd (autoInitIFrameResizing opts w) = snd (initIFrameResizing opts w)"
    by (simp add: autoInitIFrameResizing_def Let_def split_beta later_ids_def)
  then show ?thesis using later_ids_init [of w opts] by auto
qed

lemma later_ids_ready_callback: "later_ids w (ready_callback l w)"
  using later_ids_init [of w "options l"]
  by (simp add: ready_callback_def split_beta later_ids_def)

lemma later_ids_fold_ready: "later_ids w (fold ready_callback ls w)"
proof (induction ls arbitrary: w)
  case Nil
  show ?case by (simp add: later_ids_refl)
next
  case (Cons l ls)
  from later_ids_ready_callback [of w l] Cons [of "ready_callback l w"] show ?case
    by (auto intro: later_ids_trans)
qed

lemma later_ids_DOMContentLoaded: "later_ids w (DOMContentLoaded w)"
proof -
  have "\<And>x. later_ids w (w\<lparr>readyState := x\<rparr>)"
    by (simp add: later_ids_def)
  then show ?thesis
    unfolding DOMContentLoaded_def
    using later_ids_fold_ready later_ids_trans by blast
qed

lemma later_ids_cleanup: "later_ids w (call_cleanup f w)"
  by (subst call_cleanup_frame) (simp add: later_ids_def)

lemma later_ids_step:
  assumes "well_formed w"
  shows "later_ids w (step ev w)"
proof (cases ev)
  case (Message r)
  with assms show ?thesis by (simp add: later_ids_message_event well_formed_paired)
next
  case (TimePasses dt)
  with assms show ?thesis by (simp add: later_ids_time_passes well_formed_paired)
next
  case (ResizeNotification i entries)
  with assms show ?thesis
    by (simp add: resize_notification_def later_ids_observer_callback well_formed_paired
        later_ids_refl)
next
  case DocumentReady
  then show ?thesis by (simp add: later_ids_DOMContentLoaded)
next
  case (CallInit opts)
  then show ?thesis by (simp add: later_ids_init)
next
  case (CallAutoInit opts)
  then show ?thesis by (simp add: later_ids_autoInit)
next
  case (CallCleanup f)
  then show ?thesis by (simp add: later_ids_cleanup)
qed

lemma later_ids_run: "well_formed w \<Longrightarrow> later_ids w (run evs w)"
proof (induction evs arbitrary: w)
  case Nil
  show ?case by (simp add: run_Nil later_ids_refl)
next
  case (Cons ev evs)
  from later_ids_step [OF Cons.prems, of ev] Cons.IH [OF well_formed_step [OF Cons.prems], of ev]
  show ?case by (auto simp add: run_Cons intro: later_ids_trans)
qed

lemma later_dispatch_other_id:
  assumes "well_formed w" and "inj (uuid_source w)"
  shows "fst (uuidv4 (run evs (observer_callback opts (entry # rest) w))) \<noteq> fst (uuidv4 w)"
proof -
  let ?w0 = "observer_callback opts (entry # rest) w"
  have "well_formed ?w0" using assms(1) by (rule well_formed_observer_callback)
  then have "later_ids ?w0 (run evs ?w0)" by (rule later_ids_run)
  moreover have "uuid_used ?w0 = Suc (uuid_used w)" "uuid_source ?w0 = uuid_source w"
    using assms(1) by (simp_all add: observer_callback_world well_formed_paired)
  ultimately have "uuid_source (run evs ?w0) = uuid_source w"
    and "uuid_used w < uuid_used (run evs ?w0)"
    by (simp_all add: later_ids_def)
  with assms(2) show ?thesis
    by (auto simp add: uuidv4_def dest: injD)
qed

subsection \<open>One dispatch among any events\<close>

text \<open>
  The statements below are about a world \<open>w\<close> with \<open>well_formed w\<close>. A fresh page is
  well formed, and loading the module and every event keep a world well formed, so
  every world the script can be in between two events is well formed.
\<close>

lemma well_formed_reachable: "well_formed (run evs (fresh_page win rs b ids))"
  by (rule well_formed_run) (simp add: well_formed_def paired_def fresh_page_def settle_calls_def)

lemma well_formed_module_load: "well_formed w \<Longrightarrow> well_formed (module_load w)"
  by (rule same_dispatch_inv [of w])
    (simp_all add: same_dispatch_def module_load_def settle_calls_def)

text \<open>
  C1. Take any dispatch made by the observer callback, and any later moment at which its
  promise is still pending, whatever happened in between (other dispatches included).
  When a message \<open>r\<close> arrives then, the promise is fulfilled if and only if the
  \<open>receiver\<close> of \<open>r\<close> is \<open>child\<close>, the \<open>sender\<close> of the command, and its
  \<open>correspondingCommandId\<close> is the \<open>id\<close> of the command. In that case listener and timer
  of the dispatch are gone. Otherwise the message is ignored by this dispatch: the
  promise is still pending, listener and timer are still in place, and when 20000 ms
  pass the promise is rejected with the timeout error. If the generator never repeats an
  identifier, every identifier drawn after this dispatch differs from the \<open>id\<close> of its
  command. So with two dispatches in flight a response to one is a mismatch for the
  other: it settles the one only, and the other times out on its own.
  (\<open>sendResizeCommand\<close> is called by the observer callback only, so these are all
  dispatches.)
\<close>

theorem response_correlation:
  assumes "well_formed w"
    and "state (promises (run evs (observer_callback opts (entry # rest) w)) ! length (promises w))
           = Pending"
  shows "let s = dispatch_scope (height (contentRect entry)) w;
             p = length (promises w);
             w1 = message_event r (run evs (observer_callback opts (entry # rest) w))
         in ((state (promises w1 ! p) = Fulfilled) =
               (CommandResponse.receiver r = ''child'' \<and> correspondingCommandId r = fst (uuidv4 w)))
          \<and> (CommandResponse.receiver r = ''child'' \<and> correspondingCommandId r = fst (uuidv4 w) \<longrightarrow>
               s \<notin> set (message_listeners w1) \<and> (\<forall>t \<in> set (timers w1). callback t \<noteq> s))
          \<and> (\<not> (CommandResponse.receiver r = ''child'' \<and> correspondingCommandId r = fst (uuidv4 w)) \<longrightarrow>
               state (promises w1 ! p) = Pending
             \<and> s \<in> set (message_listeners w1) \<and> (\<exists>t \<in> set (timers w1). callback t = s)
             \<and> state (promises (time_passes 20000 w1) ! p) = Rejected timeout_error)
          \<and> (inj (uuid_source w) \<longrightarrow>
               fst (uuidv4 (run evs (observer_callback opts (entry # rest) w))) \<noteq> fst (uuidv4 w))"
proof -
  let ?s = "dispatch_scope (height (contentRect entry)) w"
  let ?w0 = "run evs (observer_callback opts (entry # rest) w)"
  let ?w1 = "message_event r ?w0"
  have ids: "inj (uuid_source w) \<longrightarrow> fst (uuidv4 ?w0) \<noteq> fst (uuidv4 w)"
    using later_dispatch_other_id [OF assms(1)] by blast
  have d: "well_formed (observer_callback opts (entry # rest) w)"
    "tracked (dispatch_scope (height (contentRect entry)) w) (now w + 20000)
       (observer_callback opts (entry # rest) w)"
    "dispatch_scope (height (contentRect entry)) w
       \<in> set (message_listeners (observer_callback opts (entry # rest) w))"
    "now (observer_callback opts (entry # rest) w) = now w"
    "settle (dispatch_scope (height (contentRect entry)) w) = length (promises w)"
    using assms(1) by (rule dispatch_setup)+
  have i0: "well_formed ?w0" and t0: "tracked ?s (now w + 20000) ?w0"
    using d(1,2) by (simp_all add: well_formed_run tracked_run)
  have i1: "well_formed ?w1" and t1: "tracked ?s (now w + 20000) ?w1"
    using i0 t0 by (simp_all add: well_formed_message_event tracked_message_event well_formed_paired)
  have reg: "?s \<in> set (message_listeners ?w0)"
    using assms(2) pending_iff_listener [OF well_formed_paired [OF i0] t0] by (simp add: d(5))
  have p1: "(state (promises ?w1 ! settle ?s) = Pending) = (?s \<in> set (message_listeners ?w1))"
    using well_formed_paired [OF i1] t1 by (rule pending_iff_listener)
  note lt = listener_iff_timer [OF well_formed_paired [OF i1], of ?s]
  show ?thesis
  proof (cases "matches ?s r")
    case True
    have "state (promises ?w1 ! settle ?s) = Fulfilled"
      using well_formed_paired [OF i0] True reg by (rule match_message_event)
    with True p1 lt ids show ?thesis
      by (simp add: Let_def d(5) matches_dispatch_scope)
  next
    case False
    have pend: "state (promises ?w1 ! settle ?s) = Pending"
      using mismatch_message_event(1) [OF well_formed_paired [OF i0] t0 False] assms(2)
      by (simp add: d(5))
    with p1 have reg1: "?s \<in> set (message_listeners ?w1)" by simp
    have "now w \<le> now ?w1"
      using now_run [OF d(1), of evs] now_message_event [OF well_formed_paired [OF i0], of r]
      by (simp add: d(4))
    then have "now w + 20000 \<le> now ?w1 + 20000" by simp
    with well_formed_paired [OF i1] t1 reg1
    have "state (promises (time_passes 20000 ?w1) ! settle ?s) = Rejected timeout_error"
      by (rule late_time_passes(1))
    with False pend reg1 lt ids show ?thesis
      by (simp add: Let_def d(5) matches_dispatch_scope)
  qed
qed

text \<open>
  C3. Take any dispatch made by the observer callback and events \<open>evs\<close> that follow it,
  taking less than 20000 ms and holding no message that matches the command. When time
  then passes the 20000th millisecond, the promise is rejected with the error whose
  message is \<open>Timeout exceeded for command resize\<close>, the listener is no longer
  registered, and in the trace the removal of the listener comes immediately before the
  call of \<open>reject\<close>, hence before the failure handler runs.
\<close>

theorem unanswered_dispatch_times_out:
  assumes "well_formed w"
    and "unanswered (dispatch_scope (height (contentRect entry)) w) evs"
    and "elapsed evs < 20000" and "20000 \<le> elapsed evs + dt"
  shows "let s = dispatch_scope (height (contentRect entry)) w;
             p = length (promises w);
             w1 = run (evs @ [TimePasses dt]) (observer_callback opts (entry # rest) w)
         in state (promises w1 ! p) = Rejected (Error ''Timeout exceeded for command resize'')
          \<and> s \<notin> set (message_listeners w1)
          \<and> (\<exists>pre post. trace w1 =
                pre @ [RemoveEventListener s,
                       CallReject p (Error ''Timeout exceeded for command resize'')] @ post)"
proof -
  let ?s = "dispatch_scope (height (contentRect entry)) w"
  let ?w0 = "run evs (observer_callback opts (entry # rest) w)"
  let ?w1 = "time_passes dt ?w0"
  have d: "well_formed (observer_callback opts (entry # rest) w)"
    "tracked (dispatch_scope (height (contentRect entry)) w) (now w + 20000)
       (observer_callback opts (entry # rest) w)"
    "dispatch_scope (height (contentRect entry)) w
       \<in> set (message_listeners (observer_callback opts (entry # rest) w))"
    "now (observer_callback opts (entry # rest) w) = now w"
    "settle (dispatch_scope (height (contentRect entry)) w) = length (promises w)"
    using assms(1) by (rule dispatch_setup)+
  have i0: "well_formed ?w0" and t0: "tracked ?s (now w + 20000) ?w0"
    using d(1,2) by (simp_all add: well_formed_run tracked_run)
  have "now (observer_callback opts (entry # rest) w) + elapsed evs < now w + 20000"
    using assms(3) by (simp add: d(4))
  with d(1,2,3) assms(2) have reg: "?s \<in> set (message_listeners ?w0)"
    by (rule pending_run)
  have late: "now w + 20000 \<le> now ?w0 + dt"
    using assms(4) by (simp add: now_run [OF d(1)] d(4))
  note l = late_time_passes [OF well_formed_paired [OF i0] t0 reg late]
  have "well_formed ?w1" and "tracked ?s (now w + 20000) ?w1"
    using i0 t0 by (simp_all add: well_formed_time_passes tracked_time_passes well_formed_paired)
  then have "(state (promises ?w1 ! settle ?s) = Pending) = (?s \<in> set (message_listeners ?w1))"
    by (intro pending_iff_listener) (simp_all add: well_formed_paired)
  with l(1) have "?s \<notin> set (message_listeners ?w1)" by simp
  with l show ?thesis
    by (simp add: Let_def run_append run_Cons run_Nil d(5) removed_then_rejected_def
        timeout_error_def)
qed


lemma well_formed_fresh_page: "well_formed (fresh_page win rs b ids)"
  by (simp add: well_formed_def paired_def fresh_page_def settle_calls_def)

lemma well_formed_observed_page: "well_formed observed_page"
  unfolding observed_page_def example_page_def
  using same_dispatch_inv [OF same_dispatch_init well_formed_fresh_page] .

lemmas eval_more = eval_defs observed_page_def example_ack_def dispatch_scope_def matches_def
  timeout_error_def settle_calls_def

theorem response_correlation_witness:
  "well_formed observed_page
   \<and> state (promises (run [ResizeNotification 0 [example_entry 700 720] :: (real, unit) event]
              (observer_callback no_hooks [example_entry 500 520] observed_page)) ! 0) = Pending
   \<and> state (promises (message_event (example_ack ''id-'' ''child'')
              (run [ResizeNotification 0 [example_entry 700 720] :: (real, unit) event]
                 (observer_callback no_hooks [example_entry 500 520] observed_page))) ! 0) = Fulfilled
   \<and> state (promises (message_event (example_ack ''id-'' ''child'')
              (run [ResizeNotification 0 [example_entry 700 720] :: (real, unit) event]
                 (observer_callback no_hooks [example_entry 500 520] observed_page))) ! 1) = Pending
   \<and> state (promises (time_passes 20000 (message_event (example_ack ''id-'' ''child'')
              (run [ResizeNotification 0 [example_entry 700 720] :: (real, unit) event]
                 (observer_callback no_hooks [example_entry 500 520] observed_page)))) ! 1)
       = Rejected timeout_error
   \<and> inj (uuid_source observed_page)
   \<and> fst (uuidv4 (run [ResizeNotification 0 [example_entry 700 720] :: (real, unit) event]
              (observer_callback no_hooks [example_entry 500 520] observed_page)))
       \<noteq> fst (uuidv4 observed_page)"
proof -
  have inj: "inj (uuid_source observed_page)"
    by (simp add: eval_more inj_def)
  let ?a = "observer_callback no_hooks [example_entry 500 520] observed_page"
  let ?evs = "[ResizeNotification 0 [example_entry 700 720] :: (real, unit) event]"
  let ?r = "example_ack ''id-'' ''child''"
  have i: "well_formed observed_page" by (rule well_formed_observed_page)
  have ia: "well_formed ?a" using i by (rule well_formed_observer_callback)
  have b: "run ?evs ?a = observer_callback no_hooks [example_entry 700 720] ?a"
    by (simp add: eval_more)
  have pa: "state (promises (run ?evs ?a) ! length (promises observed_page)) = Pending"
    by (simp add: eval_more)
  have pb: "state (promises (run ([] :: (real, unit) event list)
                (observer_callback no_hooks [example_entry 700 720] ?a)) ! length (promises ?a))
            = Pending"
    by (simp add: eval_more)
  have la: "length (promises observed_page) = 0" and lb: "length (promises ?a) = 1"
    by (simp_all add: eval_more)
  have ma: "CommandResponse.receiver ?r = ''child''
            \<and> correspondingCommandId ?r = fst (uuidv4 observed_page)"
    and mb: "\<not> (CommandResponse.receiver ?r = ''child''
            \<and> correspondingCommandId ?r = fst (uuidv4 ?a))"
    by (simp_all add: eval_more)
  from response_correlation [OF i pa, where r = ?r] ma la inj
  have "state (promises (message_event ?r (run ?evs ?a)) ! 0) = Fulfilled
      \<and> fst (uuidv4 (run ?evs ?a)) \<noteq> fst (uuidv4 observed_page)"
    by (simp add: Let_def)
  moreover from response_correlation [OF ia pb, where r = ?r] mb lb
  have "state (promises (message_event ?r (run ?evs ?a)) ! 1) = Pending
      \<and> state (promises (time_passes 20000 (message_event ?r (run ?evs ?a))) ! 1)
          = Rejected timeout_error"
    by (simp add: Let_def run_Nil b)
  ultimately show ?thesis
    using i pa la inj by simp
qed

theorem unanswered_dispatch_times_out_witness:
  "well_formed observed_page
   \<and> unanswered (dispatch_scope (height (contentRect (example_entry 500 520))) observed_page)
       [Message (example_ack ''id-x'' ''child''), TimePasses 19999,
        Message (example_ack ''id-'' ''parent'') :: (real, unit) event]
   \<and> state (promises (run ([Message (example_ack ''id-x'' ''child''), TimePasses 19999,
                             Message (example_ack ''id-'' ''parent'')] @ [TimePasses 1 :: (real, unit) event])
              (observer_callback no_hooks [example_entry 500 520] observed_page)) ! 0)
       = Rejected (Error ''Timeout exceeded for command resize'')"
proof -
  let ?evs = "[Message (example_ack ''id-x'' ''child''), TimePasses 19999,
               Message (example_ack ''id-'' ''parent'') :: (real, unit) event]"
  have i: "well_formed observed_page" by (rule well_formed_observed_page)
  have u: "unanswered (dispatch_scope (height (contentRect (example_entry 500 520))) observed_page) ?evs"
    by (simp add: eval_more)
  have e: "elapsed ?evs < 20000" "20000 \<le> elapsed ?evs + 1"
    by simp_all
  have l: "length (promises observed_page) = 0"
    by (simp add: eval_more)
  from unanswered_dispatch_times_out [OF i u e, where opts = no_hooks and rest = "[]"] l i u
  show ?thesis by (simp add: Let_def)
qed


end
